theory Spec2Isabelle
  imports Main "HOL-Library.Word" "HOL-Library.Log_Nat"
begin

unbundle bit_operations_syntax

section \<open>The WebM muxer of the timeline editor (lib/whammy)\<close>

text \<open>
  The muxer takes WebP still images (as data URLs), pulls the VP8 key frame out of each
  and writes them as SimpleBlocks of one Cluster of a WebM (EBML) document.

  Conventions of the embedding.
  \<^item> A \<open>Uint8Array\<close> is a list of 8-bit words. Storing a number into one keeps the
    low eight bits (\<open>word_of_int\<close>); reading one gives \<open>uint\<close>.
  \<^item> JavaScript's bitwise operators \<open>&\<close>, \<open>|\<close>, \<open><<\<close> and \<open>>>\<close> first convert
    their operands with ToInt32 and give a signed 32-bit result. Integers are \<open>int\<close>;
    the conversion is \<open>toInt32\<close>, written out at every operator.
  \<^item> Array lengths, element ids and pixel dimensions are integers. The frame rate, the
    frame duration and the timecodes are values of \<open>number\<close>, the binary64 doubles of
    the language: every operation rounds its exact result to the nearest double, ties to
    the even significand; a result that rounds to \<open>2 ^ 1024\<close> or more is an infinity;
    zeros, infinities and NaNs carry a sign. The bit pattern of a NaN, which the language
    leaves to the implementation, is the one of x86-64 hardware.
  \<^item> A thrown exception and a rejected promise are \<open>Inl\<close> of a sum.
\<close>

type_synonym byte = "8 word"
type_synonym Uint8Array = "byte list"

subsection \<open>ToInt32 and the typed-array primitives\<close>

definition toInt32 :: "int \<Rightarrow> int" where
  "toInt32 v = (v + 2 ^ 31) mod 2 ^ 32 - 2 ^ 31"

text \<open>
  \<open>target.set(source, offset)\<close> overwrites \<open>length source\<close> elements of the target from
  \<open>offset\<close> on. The platform raises a RangeError when the source does not fit; \<open>set_fits\<close>
  is that check, and every call below is shown to pass it.
\<close>

definition set_fits :: "Uint8Array \<Rightarrow> 'a list \<Rightarrow> nat \<Rightarrow> bool" where
  "set_fits target source offset \<longleftrightarrow> offset + length source \<le> length target"

definition typed_set :: "Uint8Array \<Rightarrow> Uint8Array \<Rightarrow> nat \<Rightarrow> Uint8Array" where
  "typed_set target source offset =
     take offset target @ source @ drop (offset + length source) target"

text \<open>
  The loop shared by \<open>uintToArray\<close> and \<open>encodeVint\<close>:
  \<^verbatim>\<open>for (let i = n - 1; i >= 0; i--) { arr[i] = value & 0xff; value >>= 8; }\<close>
  The first argument counts the iterations left, so the index written is one less.
\<close>

fun store_be :: "nat \<Rightarrow> Uint8Array \<Rightarrow> int \<Rightarrow> Uint8Array" where
  "store_be 0 arr v = arr"
| "store_be (Suc i) arr v =
     store_be i (arr[i := word_of_int (toInt32 v AND 0xff)]) (drop_bit 8 (toInt32 v))"

definition uintToArray :: "int \<Rightarrow> nat \<Rightarrow> Uint8Array" where
  "uintToArray v bytes = store_be bytes (replicate bytes 0) v"

subsection \<open>The variable-length size codec\<close>

text \<open>
  \<^verbatim>\<open>while (value >= Math.pow(2, 7 * length) - 1 && length < 8) length++;\<close>
\<close>

function vint_length :: "int \<Rightarrow> nat \<Rightarrow> nat" where
  "vint_length v len =
     (if v \<ge> 2 ^ (7 * len) - 1 \<and> len < 8 then vint_length v (len + 1) else len)"
  by pat_completeness auto
termination
  by (relation "measure (\<lambda>(v, len). 8 - len)") auto

definition encodeVint :: "int \<Rightarrow> Uint8Array" where
  "encodeVint v =
     (let len = vint_length v 1;
          buffer = store_be len (replicate len 0) v
      in buffer[0 := word_of_int (uint (buffer ! 0) OR toInt32 (push_bit (8 - len) 1))])"

subsection \<open>The element framer\<close>

definition encodeElement :: "int list \<Rightarrow> Uint8Array \<Rightarrow> Uint8Array" where
  "encodeElement ident data =
     (let size = encodeVint (int (length data));
          result = replicate (length ident + length size + length data) 0;
          result = typed_set result (map word_of_int ident) 0;
          result = typed_set result size (length ident);
          result = typed_set result data (length ident + length size)
      in result)"

fun concat_loop :: "Uint8Array \<Rightarrow> nat \<Rightarrow> Uint8Array list \<Rightarrow> Uint8Array" where
  "concat_loop result offset [] = result"
| "concat_loop result offset (arr # arrays) =
     concat_loop (typed_set result arr offset) (offset + length arr) arrays"

definition concatArrays :: "Uint8Array list \<Rightarrow> Uint8Array" where
  "concatArrays arrays =
     (let len = foldl (\<lambda>sum arr. sum + length arr) 0 arrays
      in concat_loop (replicate len 0) 0 arrays)"

subsection \<open>Reading a size field back\<close>

text \<open>
  The muxer only writes size fields; it has no reader. \<open>decodeVint\<close> is the reader of
  the EBML convention, against which the fields written are checked: the number of
  leading zero bits of the first byte, plus one, is the width of the field; the marker
  bit is cleared and the bytes are read as one big-endian number. It returns the
  value and the bytes after the field.
\<close>

definition vint_width :: "byte \<Rightarrow> nat" where
  "vint_width b =
     (if 0x80 \<le> b then 1 else if 0x40 \<le> b then 2 else if 0x20 \<le> b then 3
      else if 0x10 \<le> b then 4 else if 0x08 \<le> b then 5 else if 0x04 \<le> b then 6
      else if 0x02 \<le> b then 7 else 8)"

definition be_value :: "Uint8Array \<Rightarrow> int" where
  "be_value bs = foldl (\<lambda>acc b. acc * 256 + uint b) 0 bs"

definition decodeVint :: "Uint8Array \<Rightarrow> (int \<times> Uint8Array) option" where
  "decodeVint bs =
     (case bs of
        [] \<Rightarrow> None
      | b # rest \<Rightarrow>
          if b = 0 \<or> length bs < vint_width b then None
          else Some (be_value ((b AND NOT (push_bit (8 - vint_width b) 1))
                               # take (vint_width b - 1) rest),
                     drop (vint_width b - 1) rest))"

subsection \<open>Numbers\<close>

text \<open>
  A \<open>number\<close> is a binary64 value: a finite one with its sign and its magnitude (so
  that \<open>Fin True 0\<close> is the negative zero), an infinity with its sign, or a NaN with its
  sign bit. \<open>Num x\<close> is the number that denotes the rational \<open>x\<close>.
\<close>

datatype number = Fin bool rat | Inf bool | NaN bool

definition Num :: "rat \<Rightarrow> number" where
  "Num x = Fin (x < 0) \<bar>x\<bar>"

definition signed :: "bool \<Rightarrow> rat \<Rightarrow> rat" where
  "signed s m = (if s then - m else m)"

text \<open>
  Every arithmetic operation gives the binary64 value nearest to the exact result, ties
  to the even significand: \<open>round64 s m\<close> rounds the magnitude \<open>m\<close> of a result of sign
  \<open>s\<close>. The exponent is the binary logarithm of the magnitude, not below that of the
  subnormals; a result that rounds to \<open>2 ^ 1024\<close> or more is an infinity, one that
  rounds to nothing is a zero of the same sign.
\<close>

definition pow2 :: "int \<Rightarrow> rat" where
  "pow2 e = (if 0 \<le> e then 2 ^ nat e else 1 / 2 ^ nat (- e))"

definition floor_log2 :: "rat \<Rightarrow> int" where
  "floor_log2 a =
     (let (p, q) = quotient_of a; d = bitlen p - bitlen q
      in if pow2 d \<le> a then d else d - 1)"

definition round_half_even :: "rat \<Rightarrow> int" where
  "round_half_even y =
     (let f = \<lfloor>y\<rfloor>; r = y - of_int f
      in if r < 1 / 2 then f else if 1 / 2 < r then f + 1
         else if even f then f else f + 1)"

definition round64 :: "bool \<Rightarrow> rat \<Rightarrow> number" where
  "round64 s m =
     (if m = 0 then Fin s 0
      else
        let e = max (floor_log2 m) (- 1022);
            v = of_int (round_half_even (m * pow2 (52 - e))) * pow2 (e - 52)
        in if 2 ^ 1024 \<le> v then Inf s else Fin s v)"

text \<open>
  An invalid operation (\<open>0 / 0\<close>, \<open>Infinity * 0\<close>, \<open>Infinity - Infinity\<close>) gives a NaN.
  The language leaves the bit pattern of a NaN to the implementation; on x86-64 the
  invalid operations give the quiet NaN with the sign bit set, and an operation on a
  NaN gives that NaN back. A zero sum is positive unless both summands are negative.
\<close>

definition invalid :: number where
  "invalid = NaN True"

fun js_add :: "number \<Rightarrow> number \<Rightarrow> number" where
  "js_add (NaN s) y = NaN s"
| "js_add x (NaN t) = NaN t"
| "js_add (Fin s a) (Fin t b) =
     (let x = signed s a + signed t b
      in if x = 0 then Fin (s \<and> t) 0 else round64 (x < 0) \<bar>x\<bar>)"
| "js_add (Fin s a) (Inf t) = Inf t"
| "js_add (Inf s) (Fin t b) = Inf s"
| "js_add (Inf s) (Inf t) = (if s = t then Inf s else invalid)"

fun js_mul :: "number \<Rightarrow> number \<Rightarrow> number" where
  "js_mul (NaN s) y = NaN s"
| "js_mul x (NaN t) = NaN t"
| "js_mul (Fin s a) (Fin t b) = round64 (s \<noteq> t) (a * b)"
| "js_mul (Fin s a) (Inf t) = (if a = 0 then invalid else Inf (s \<noteq> t))"
| "js_mul (Inf s) (Fin t b) = (if b = 0 then invalid else Inf (s \<noteq> t))"
| "js_mul (Inf s) (Inf t) = Inf (s \<noteq> t)"

fun js_div :: "number \<Rightarrow> number \<Rightarrow> number" where
  "js_div (NaN s) y = NaN s"
| "js_div x (NaN t) = NaN t"
| "js_div (Fin s a) (Fin t b) =
     (if b = 0 then (if a = 0 then invalid else Inf (s \<noteq> t))
      else round64 (s \<noteq> t) (a / b))"
| "js_div (Fin s a) (Inf t) = Fin (s \<noteq> t) 0"
| "js_div (Inf s) (Fin t b) = Inf (s \<noteq> t)"
| "js_div (Inf s) (Inf t) = invalid"

text \<open>
  \<open>Math.round\<close> gives the nearest integer, a half towards plus infinity; a result of
  zero keeps the sign of the argument, so \<open>Math.round(-0.3)\<close> is the negative zero. The
  nearest integer of a binary64 value is a binary64 value.
\<close>

fun math_round :: "number \<Rightarrow> number" where
  "math_round (Fin s a) = Fin s \<bar>of_int \<lfloor>signed s a + 1 / 2\<rfloor>\<bar>"
| "math_round x = x"

text \<open>ToInt32 of a number: truncate towards zero, then wrap; the special values give 0.\<close>

fun number_toInt32 :: "number \<Rightarrow> int" where
  "number_toInt32 (Fin s a) = toInt32 (if s then - \<lfloor>a\<rfloor> else \<lfloor>a\<rfloor>)"
| "number_toInt32 x = 0"

subsection \<open>\<open>float64ToArray\<close>\<close>

text \<open>
  \<open>DataView.setFloat64(0, value)\<close> writes the IEEE 754 binary64 encoding of the value,
  most significant byte first: the sign bit, eleven exponent bits and 52 bits of the
  significand. \<open>float64_bits\<close> is that encoding as a 64-bit pattern.
\<close>

fun float64_bits :: "number \<Rightarrow> int" where
  "float64_bits (NaN s) = (if s then 2 ^ 63 else 0) + 0x7FF8000000000000"
| "float64_bits (Inf s) = (if s then 2 ^ 63 else 0) + 0x7FF0000000000000"
| "float64_bits (Fin s a) =
     (if s then 2 ^ 63 else 0)
     + (if a = 0 then 0
        else
          let e0 = max (floor_log2 a) (- 1022);
              m0 = round_half_even (a * pow2 (52 - e0));
              e = (if m0 = 2 ^ 53 then e0 + 1 else e0);
              m = (if m0 = 2 ^ 53 then 2 ^ 52 else m0)
          in if 1023 < e then 0x7FF0000000000000
             else if m < 2 ^ 52 then m
             else (e + 1023) * 2 ^ 52 + (m - 2 ^ 52))"

definition float64ToArray :: "number \<Rightarrow> Uint8Array" where
  "float64ToArray v =
     map (\<lambda>i. word_of_int (drop_bit (8 * (7 - i)) (float64_bits v))) [0..<8]"

subsection \<open>The bitstream extractor\<close>

datatype error = Error string | InvalidCharacterError

text \<open>
  \<open>webp.subarray(begin, end)\<close>: a negative index counts from the end, both indices are
  clamped to the array, and an empty range gives the empty array. It never raises.
\<close>

definition subarray :: "Uint8Array \<Rightarrow> int \<Rightarrow> int \<Rightarrow> Uint8Array" where
  "subarray arr begin end =
     (let len = int (length arr);
          beginIndex = (if begin < 0 then max (len + begin) 0 else min begin len);
          endIndex = (if end < 0 then max (len + end) 0 else min end len);
          newLength = max (endIndex - beginIndex) 0
      in take (nat newLength) (drop (nat beginIndex) arr))"

definition signature_at :: "Uint8Array \<Rightarrow> nat \<Rightarrow> bool" where
  "signature_at webp i \<longleftrightarrow>
     webp ! i = 0x56 \<and> webp ! (i + 1) = 0x50 \<and> webp ! (i + 2) = 0x38 \<and> webp ! (i + 3) = 0x20"

definition chunk_size :: "Uint8Array \<Rightarrow> nat \<Rightarrow> int" where
  "chunk_size webp i =
     uint (webp ! (i + 4))
     OR toInt32 (push_bit 8 (uint (webp ! (i + 5))))
     OR toInt32 (push_bit 16 (uint (webp ! (i + 6))))
     OR toInt32 (push_bit 24 (uint (webp ! (i + 7))))"

text \<open>
  \<^verbatim>\<open>for (let i = 0; i <= webp.length - 10; i++) { if (...) { ...; return ...; } } throw ...\<close>
  Every index read is below \<open>length webp - 2\<close>, so no read is out of range.
\<close>

function extract_scan :: "Uint8Array \<Rightarrow> nat \<Rightarrow> error + Uint8Array" where
  "extract_scan webp i =
     (if int i \<le> int (length webp) - 10 then
        (if signature_at webp i then
           (let size = chunk_size webp i;
                start = int i + 8
            in Inr (subarray webp start (start + size)))
         else extract_scan webp (i + 1))
      else Inl (Error ''VP8 bitstream not found in WebP image.''))"
  by pat_completeness auto
termination
  by (relation "measure (\<lambda>(webp, i). length webp - i)") auto

definition extractVP8Bitstream :: "Uint8Array \<Rightarrow> error + Uint8Array" where
  "extractVP8Bitstream webp = extract_scan webp 0"

subsection \<open>Data URLs\<close>

text \<open>\<open>s.indexOf(",")\<close>: the index of the first comma, or -1.\<close>

fun indexOf :: "string \<Rightarrow> char \<Rightarrow> int" where
  "indexOf [] c = - 1"
| "indexOf (x # xs) c =
     (if x = c then 0 else (let r = indexOf xs c in if r < 0 then - 1 else r + 1))"

text \<open>
  \<open>atob\<close> is the platform's base64 decoder, a parameter here: it gives the decoded
  binary string (characters 0 to 255) or raises InvalidCharacterError.
\<close>

definition dataURLToUint8Array :: "(string \<Rightarrow> error + string) \<Rightarrow> string \<Rightarrow> error + Uint8Array" where
  "dataURLToUint8Array atob dataURL =
     (let index = indexOf dataURL (CHR '','');
          b64 = drop (nat (index + 1)) dataURL
      in case atob b64 of
           Inl e \<Rightarrow> Inl e
         | Inr binaryString \<Rightarrow> Inr (map (\<lambda>c. word_of_nat (of_char c)) binaryString))"

subsection \<open>The block encoder\<close>

text \<open>
  \<^verbatim>\<open>const tc = new Uint8Array(2);
  tc[0] = (timecode >> 8) & 0xff;
  tc[1] = timecode & 0xff;\<close>
\<close>

definition timecode_bytes :: "number \<Rightarrow> Uint8Array" where
  "timecode_bytes timecode =
     [word_of_int (toInt32 (drop_bit 8 (number_toInt32 timecode)) AND 0xff),
      word_of_int (number_toInt32 timecode AND 0xff)]"

definition createSimpleBlock :: "Uint8Array \<Rightarrow> number \<Rightarrow> Uint8Array" where
  "createSimpleBlock vp8Frame timecode =
     (let trackNumber = [0x81];
          tc = timecode_bytes timecode;
          flags = [0x80];
          payload = concatArrays [trackNumber, tc, flags, vp8Frame]
      in encodeElement [0xa3] payload)"

subsection \<open>The container assembler\<close>

text \<open>\<open>new TextEncoder().encode(s)\<close> on the ASCII literals of the source.\<close>

definition text_encode :: "string \<Rightarrow> Uint8Array" where
  "text_encode s = map (\<lambda>c. word_of_nat (of_char c)) s"

definition ebml_header :: Uint8Array where
  "ebml_header = encodeElement [0x1a, 0x45, 0xdf, 0xa3] (concatArrays
     [encodeElement [0x42, 0x86] [0x01],
      encodeElement [0x42, 0xf7] [0x01],
      encodeElement [0x42, 0xf2] [0x04],
      encodeElement [0x42, 0xf3] [0x08],
      encodeElement [0x42, 0x82] (text_encode ''webm''),
      encodeElement [0x42, 0x87] [0x02],
      encodeElement [0x42, 0x85] [0x02]])"

definition segment_info :: "number \<Rightarrow> Uint8Array" where
  "segment_info durationMs = encodeElement [0x15, 0x49, 0xa9, 0x66] (concatArrays
     [encodeElement [0x2a, 0xd7, 0xb1] (uintToArray 1000000 4),
      encodeElement [0x44, 0x89] (float64ToArray (js_div durationMs (Num 1000))),
      encodeElement [0x4d, 0x80] (text_encode ''AnimArrange''),
      encodeElement [0x57, 0x41] (text_encode ''AnimArrange'')])"

definition track_entry :: "int \<Rightarrow> int \<Rightarrow> Uint8Array" where
  "track_entry width height = encodeElement [0xae] (concatArrays
     [encodeElement [0xd7] (uintToArray 1 1),
      encodeElement [0x73, 0xc5] (uintToArray 1 1),
      encodeElement [0x9c] [0x00],
      encodeElement [0x83] [0x01],
      encodeElement [0x86] (text_encode ''V_VP8''),
      encodeElement [0xe0] (concatArrays
        [encodeElement [0xb0] (uintToArray width 2),
         encodeElement [0xba] (uintToArray height 2)])])"

text \<open>
  \<^verbatim>\<open>let timecode = 0;
  for (const frame of frames) {
    simpleBlocks.push(createSimpleBlock(frame, timecode));
    timecode += frameDurationMs;
  }\<close>
\<close>

fun simple_blocks :: "Uint8Array list \<Rightarrow> number \<Rightarrow> number \<Rightarrow> Uint8Array list" where
  "simple_blocks [] timecode frameDurationMs = []"
| "simple_blocks (frame # frames) timecode frameDurationMs =
     createSimpleBlock frame timecode
     # simple_blocks frames (js_add timecode frameDurationMs) frameDurationMs"

definition createWebM :: "Uint8Array list \<Rightarrow> number \<Rightarrow> int \<Rightarrow> int \<Rightarrow> Uint8Array" where
  "createWebM frames frameDurationMs width height =
     (let frameCount = Num (of_nat (length frames));
          durationMs = js_mul frameDurationMs frameCount;
          ebml = ebml_header;
          segmentInfo = segment_info durationMs;
          trackEntry = track_entry width height;
          tracks = encodeElement [0x16, 0x54, 0xae, 0x6b] trackEntry;
          clusterTimecode = encodeElement [0xe7] (uintToArray 0 2);
          simpleBlocks = simple_blocks frames (Num 0) frameDurationMs;
          cluster = encodeElement [0x1f, 0x43, 0xb6, 0x75]
                      (concatArrays (clusterTimecode # simpleBlocks));
          segment = encodeElement [0x18, 0x53, 0x80, 0x67]
                      (concatArrays [segmentInfo, tracks, cluster])
      in concatArrays [ebml, segment])"

subsection \<open>The entry point\<close>

record Blob =
  blob_bytes :: Uint8Array
  blob_type :: string

text \<open>
  The callback of \<open>frames.map\<close>:
  \<^verbatim>\<open>(frame) => { const webp = dataURLToUint8Array(frame); return extractVP8Bitstream(webp); }\<close>
\<close>

definition frame_callback :: "(string \<Rightarrow> error + string) \<Rightarrow> string \<Rightarrow> error + Uint8Array" where
  "frame_callback atob frame =
     (case dataURLToUint8Array atob frame of
        Inl e \<Rightarrow> Inl e
      | Inr webp \<Rightarrow> extractVP8Bitstream webp)"

text \<open>
  \<open>frames.map(...)\<close> calls the callback on the frames in order; the first exception
  leaves the loop, and with it the entry point.
\<close>

fun map_frames :: "(string \<Rightarrow> error + string) \<Rightarrow> string list \<Rightarrow> error + Uint8Array list" where
  "map_frames atob [] = Inr []"
| "map_frames atob (frame # frames) =
     (case frame_callback atob frame of
        Inl e \<Rightarrow> Inl e
      | Inr vp8 \<Rightarrow>
          (case map_frames atob frames of
             Inl e \<Rightarrow> Inl e
           | Inr rest \<Rightarrow> Inr (vp8 # rest)))"

definition fromImageArray ::
  "(string \<Rightarrow> error + string) \<Rightarrow> string list \<Rightarrow> number \<Rightarrow> int \<Rightarrow> int \<Rightarrow> error + Blob" where
  "fromImageArray atob frames fps width height =
     (let frameDurationMs = math_round (js_div (Num 1000) fps)
      in case map_frames atob frames of
           Inl e \<Rightarrow> Inl e
         | Inr vp8Frames \<Rightarrow>
             Inr \<lparr>blob_bytes = createWebM vp8Frames frameDurationMs width height,
                  blob_type = ''video/webm''\<rparr>)"

subsection \<open>Auxiliary functions of the statements and proofs\<close>

text \<open>The last \<open>i\<close> bytes of \<open>v\<close>, most significant first.\<close>

fun be_bytes :: "nat \<Rightarrow> int \<Rightarrow> Uint8Array" where
  "be_bytes 0 v = []"
| "be_bytes (Suc i) v = be_bytes i (v div 256) @ [word_of_int v]"

text \<open>Every \<open>set\<close> of the loop of \<open>concatArrays\<close> passes the platform's range check.\<close>

fun concat_fits :: "Uint8Array \<Rightarrow> nat \<Rightarrow> Uint8Array list \<Rightarrow> bool" where
  "concat_fits result offset [] = True"
| "concat_fits result offset (arr # arrays) =
     (set_fits result arr offset
      \<and> concat_fits (typed_set result arr offset) (offset + length arr) arrays)"

text \<open>
  A two-byte field read as a signed 16-bit number, most significant byte first: the
  way a Matroska reader takes the timecode of a SimpleBlock.
\<close>

definition int16_be :: "Uint8Array \<Rightarrow> int" where
  "int16_be bs = (let u = be_value (take 2 bs) in if u < 32768 then u else u - 65536)"

text \<open>
  The two low bytes of an integer, most significant first, and the value of the
  variable \<open>timecode\<close> of \<open>createWebM\<close> after \<open>k\<close> rounds of its loop.
\<close>

definition be16 :: "int \<Rightarrow> Uint8Array" where
  "be16 v = [word_of_int (v div 256), word_of_int v]"

definition running_timecode :: "number \<Rightarrow> nat \<Rightarrow> number" where
  "running_timecode frameDurationMs k = ((\<lambda>timecode. js_add timecode frameDurationMs) ^^ k) (Num 0)"

text \<open>
  The four bytes of a RIFF chunk size, least significant first: the length field of the
  synthetic still image \<open>header @ "VP8 " @ le32 L @ payload\<close>.
\<close>

definition le32 :: "nat \<Rightarrow> Uint8Array" where
  "le32 n = [word_of_nat n, word_of_nat (n div 2 ^ 8), word_of_nat (n div 2 ^ 16),
             word_of_nat (n div 2 ^ 24)]"

section \<open>Integer and bit lemmas\<close>

lemma toInt32_id: "0 \<le> v \<Longrightarrow> v < 2 ^ 31 \<Longrightarrow> toInt32 v = v"
  by (simp add: toInt32_def)

lemma and_255: "(k::int) AND 255 = k mod 256"
proof -
  have "k AND mask 8 = take_bit 8 k" by (simp add: take_bit_eq_mask)
  then show ?thesis by (simp add: take_bit_eq_mod mask_eq_exp_minus_1)
qed

lemma not_bit_above: "0 \<le> t \<Longrightarrow> t < 2 ^ k \<Longrightarrow> \<not> bit (t::int) k"
  by (simp add: bit_iff_odd)

lemma or_marker: "0 \<le> t \<Longrightarrow> t < 2 ^ k \<Longrightarrow> (t::int) OR 2 ^ k = t + 2 ^ k"
proof -
  assume a: "0 \<le> t" "t < 2 ^ k"
  then have "\<And>n. \<not> bit t n \<or> \<not> bit ((2::int) ^ k) n"
    by (auto simp: bit_exp_iff not_bit_above)
  then have "t + 2 ^ k = t OR 2 ^ k" by (rule disjunctive_add)
  then show ?thesis by simp
qed

lemma div_lt_from_mult:
  fixes n :: int
  assumes "n < c * d" "0 < d"
  shows "n div d < c"
proof (rule ccontr)
  assume "\<not> n div d < c"
  then have "c * d \<le> (n div d) * d" using assms(2) by (simp add: mult_right_mono)
  moreover have "(n div d) * d + n mod d = n" by simp
  moreover have "0 \<le> n mod d" using assms(2) by simp
  ultimately show False using assms(1) by linarith
qed

lemma word_of_int_mod_256: "(word_of_int (v mod 256) :: byte) = word_of_int v"
  by (simp add: word_of_int_eq_iff take_bit_eq_mod)

section \<open>The size codec\<close>

subsection \<open>The marker bit\<close>

lemma uint_marked:
  assumes "0 \<le> t" "t < 2 ^ k" "k < 8"
  shows "uint (word_of_int (t OR 2 ^ k) :: byte) = t + 2 ^ k"
proof -
  have "(2::int) ^ k * 2 \<le> 2 ^ 8"
    using assms(3) power_increasing [of "Suc k" 8 "2::int"] by simp
  then have b: "t + 2 ^ k < 256" using assms by simp
  have "uint (word_of_int (t + 2 ^ k) :: byte) = (t + 2 ^ k) mod 2 ^ LENGTH(8)"
    by (rule uint_word_of_int)
  then show ?thesis using assms b by (simp add: or_marker)
qed

lemma strip_marker:
  assumes "0 \<le> t" "t < 2 ^ k"
  shows "(word_of_int (t OR 2 ^ k) :: byte) AND NOT (push_bit k 1) = word_of_int t"
  using not_bit_above [OF assms]
  by (intro bit_word_eqI) (auto simp: bit_simps)

lemma width_marked:
  assumes "uint b = t + 2 ^ (8 - L)" "0 \<le> t" "t < 2 ^ (8 - L)" "1 \<le> L" "L \<le> 8"
  shows "vint_width b = L"
proof -
  have "L \<in> {1, 2, 3, 4, 5, 6, 7, 8}" using assms by auto
  then show ?thesis using assms(1,2,3)
    by (auto simp: vint_width_def word_le_def)
qed

subsection \<open>The byte loop below \<open>2 ^ 31\<close>\<close>

lemma length_be_bytes [simp]: "length (be_bytes i v) = i"
  by (induction i arbitrary: v) auto

lemma store_be_closed:
  "0 \<le> v \<Longrightarrow> v < 2 ^ 31 \<Longrightarrow> i \<le> length arr \<Longrightarrow>
   store_be i arr v = be_bytes i v @ drop i arr"
proof (induction i arbitrary: arr v)
  case 0
  then show ?case by simp
next
  case (Suc i)
  have d: "0 \<le> v div 256" "v div 256 < 2 ^ 31" using Suc.prems by auto
  have "store_be (Suc i) arr v = store_be i (arr[i := word_of_int v]) (v div 256)"
    using Suc.prems by (simp add: toInt32_id and_255 drop_bit_eq_div word_of_int_mod_256)
  also have "\<dots> = be_bytes i (v div 256) @ drop i (arr[i := word_of_int v])"
    using Suc.prems d by (intro Suc.IH) auto
  also have "drop i (arr[i := word_of_int v]) = word_of_int v # drop (Suc i) arr"
    using Suc.prems(3) by (simp add: Cons_nth_drop_Suc [symmetric] upd_conv_take_nth_drop)
  finally show ?case by simp
qed

lemma be_bytes_head: "be_bytes (Suc i) v = word_of_int (v div 256 ^ i) # be_bytes i v"
proof (induction i arbitrary: v)
  case 0
  then show ?case by simp
next
  case (Suc i)
  have "be_bytes (Suc (Suc i)) v = be_bytes (Suc i) (v div 256) @ [word_of_int v]" by simp
  also have "\<dots> = (word_of_int (v div 256 div 256 ^ i) # be_bytes i (v div 256)) @ [word_of_int v]"
    by (simp only: Suc.IH)
  also have "v div 256 div 256 ^ i = v div 256 ^ Suc i"
    by (simp add: zdiv_zmult2_eq)
  finally have "be_bytes (Suc (Suc i)) v =
      word_of_int (v div 256 ^ Suc i) # (be_bytes i (v div 256) @ [word_of_int v])"
    by (simp only: append_Cons)
  also have "be_bytes i (v div 256) @ [word_of_int v] = be_bytes (Suc i) v" by simp
  finally show ?case .
qed

lemma be_value_foldl:
  "foldl (\<lambda>acc b. acc * 256 + uint (b::byte)) a bs = a * 256 ^ length bs + be_value bs"
  unfolding be_value_def
proof (induction bs arbitrary: a)
  case Nil
  then show ?case by simp
next
  case (Cons b bs)
  let ?f = "\<lambda>acc b. acc * 256 + uint (b::byte)"
  have "foldl ?f a (b # bs) = foldl ?f (a * 256 + uint b) bs" by simp
  also have "\<dots> = (a * 256 + uint b) * 256 ^ length bs + foldl ?f 0 bs" by (rule Cons.IH)
  finally have l: "foldl ?f a (b # bs) = (a * 256 + uint b) * 256 ^ length bs + foldl ?f 0 bs" .
  have "foldl ?f 0 (b # bs) = foldl ?f (uint b) bs" by simp
  also have "\<dots> = uint b * 256 ^ length bs + foldl ?f 0 bs" by (rule Cons.IH)
  finally show ?case using l by (simp add: algebra_simps)
qed

lemma be_value_Cons: "be_value (b # bs) = uint b * 256 ^ length bs + be_value bs"
  using be_value_foldl [of "uint b" bs] by (simp add: be_value_def)

lemma be_value_be_bytes: "0 \<le> v \<Longrightarrow> be_value (be_bytes i v) = v mod 256 ^ i"
proof (induction i arbitrary: v)
  case 0
  then show ?case by (simp add: be_value_def)
next
  case (Suc i)
  have "be_value (be_bytes (Suc i) v)
      = uint (word_of_int (v div 256 ^ i) :: byte) * 256 ^ i + v mod 256 ^ i"
    using Suc by (simp only: be_bytes_head be_value_Cons length_be_bytes)
  also have "uint (word_of_int (v div 256 ^ i) :: byte) = (v div 256 ^ i) mod 256"
    by (simp add: uint_word_of_int)
  finally have e: "be_value (be_bytes (Suc i) v) =
      256 ^ i * (v div 256 ^ i mod 256) + v mod 256 ^ i"
    by (simp add: mult.commute)
  have "v mod (256 ^ i * 256) = 256 ^ i * (v div 256 ^ i mod 256) + v mod 256 ^ i"
    by (rule zmod_zmult2_eq) simp
  then show ?case using e by (simp add: mult.commute)
qed

subsection \<open>The length loop\<close>

lemma vint_length_range:
  "1 \<le> len \<Longrightarrow> len \<le> 8 \<Longrightarrow>
   len \<le> vint_length v len \<and> vint_length v len \<le> 8 \<and>
   (vint_length v len < 8 \<longrightarrow> v < 2 ^ (7 * vint_length v len) - 1)"
proof (induction v len rule: vint_length.induct)
  case (1 v len)
  show ?case
  proof (cases "v \<ge> 2 ^ (7 * len) - 1 \<and> len < 8")
    case True
    then have "vint_length v len = vint_length v (len + 1)"
      using vint_length.simps [of v len] by (simp only: if_True simp_thms)
    moreover have "1 \<le> len + 1" "len + 1 \<le> 8" using True by auto
    ultimately show ?thesis using "1.IH" [OF True] by auto
  next
    case False
    then have "vint_length v len = len"
      using vint_length.simps [of v len] by (simp only: if_False simp_thms)
    then show ?thesis using False "1.prems" by auto
  qed
qed

lemma top_byte_bound:
  fixes n :: int
  assumes "0 \<le> n" "n < 2 ^ 31" "1 \<le> L" "L \<le> 8" "L < 8 \<longrightarrow> n < 2 ^ (7 * L) - 1"
  shows "0 \<le> n div 256 ^ (L - 1)" "n div 256 ^ (L - 1) < 2 ^ (8 - L)"
proof -
  show "0 \<le> n div 256 ^ (L - 1)" using assms(1) by (simp add: pos_imp_zdiv_nonneg_iff)
  have e: "(256::int) ^ (L - 1) = 2 ^ (8 * (L - 1))"
    using power_mult [of "2::int" 8 "L - 1"] by simp
  have "n < 2 ^ (8 - L) * 2 ^ (8 * (L - 1))"
  proof (cases "L < 8")
    case True
    then have "n < 2 ^ (7 * L)" using assms(5) by simp
    moreover have "7 * L = (8 - L) + 8 * (L - 1)" using assms(3,4) by simp
    ultimately show ?thesis by (simp add: power_add [symmetric])
  next
    case False
    then have "L = 8" using assms(4) by simp
    then show ?thesis using assms(2) by simp
  qed
  then show "n div 256 ^ (L - 1) < 2 ^ (8 - L)"
    unfolding e by (intro div_lt_from_mult) simp_all
qed

subsection \<open>The encoding in closed form, and its inverse\<close>

lemma encodeVint_closed:
  assumes "0 \<le> n" "n < 2 ^ 31"
  defines "L \<equiv> vint_length n 1"
  shows "encodeVint n = word_of_int (n div 256 ^ (L - 1) OR 2 ^ (8 - L)) # be_bytes (L - 1) n"
proof -
  have r: "1 \<le> L" "L \<le> 8" "L < 8 \<longrightarrow> n < 2 ^ (7 * L) - 1"
    using vint_length_range [of 1 n] by (simp_all add: L_def)
  note t = top_byte_bound [OF assms(1,2) r]
  obtain k where k: "L = Suc k" using r(1) by (cases L) auto
  have "(2::int) ^ (8 - L) \<le> 2 ^ 7" by (rule power_increasing) (use r in auto)
  then have p: "(2::int) ^ (8 - L) \<le> 128" by simp
  have buf: "store_be L (replicate L 0) n = word_of_int (n div 256 ^ k) # be_bytes k n"
    using store_be_closed [OF assms(1,2), of L "replicate L 0"]
    by (simp add: k be_bytes_head del: be_bytes.simps)
  have u: "uint (word_of_int (n div 256 ^ k) :: byte) = n div 256 ^ k"
    using t p by (simp add: uint_word_of_int k)
  have m: "toInt32 (2 ^ (7 - k)) = 2 ^ (7 - k)"
    using p by (simp add: toInt32_id k)
  show ?thesis
    unfolding encodeVint_def L_def [symmetric] Let_def buf
    by (simp add: u m k push_bit_eq_mult)
qed

lemma decode_encode:
  assumes "0 \<le> n" "n < 2 ^ 31"
  shows "decodeVint (encodeVint n @ rest) = Some (n, rest)"
proof -
  define L where "L = vint_length n 1"
  define t where "t = n div 256 ^ (L - 1)"
  have r: "1 \<le> L" "L \<le> 8" "L < 8 \<longrightarrow> n < 2 ^ (7 * L) - 1"
    using vint_length_range [of 1 n] by (simp_all add: L_def)
  have t: "0 \<le> t" "t < 2 ^ (8 - L)"
    using top_byte_bound [OF assms r] by (simp_all add: t_def)
  have k: "8 - L < 8" using r by simp
  define b :: byte where "b = word_of_int (t OR 2 ^ (8 - L))"
  have enc: "encodeVint n = b # be_bytes (L - 1) n"
    using encodeVint_closed [OF assms] by (simp add: L_def t_def b_def)
  have ub: "uint b = t + 2 ^ (8 - L)"
    unfolding b_def by (rule uint_marked [OF t k])
  have w: "vint_width b = L" by (rule width_marked [OF ub t r(1,2)])
  have nz: "b \<noteq> 0"
  proof
    assume "b = 0"
    then have "uint b = 0" by simp
    then show False using ub t by simp
  qed
  have "b AND NOT (push_bit (8 - L) 1) = word_of_int t"
    unfolding b_def by (rule strip_marker [OF t])
  then have s: "b AND NOT (2 ^ (8 - L)) = word_of_int t" by simp
  have ut: "uint (word_of_int t :: byte) = t"
  proof -
    have "(2::int) ^ (8 - L) \<le> 2 ^ 7" by (rule power_increasing) (use r in auto)
    then show ?thesis using t by (simp add: uint_word_of_int)
  qed
  have v: "be_value (word_of_int t # be_bytes (L - 1) n) = n"
  proof -
    have "be_value (word_of_int t # be_bytes (L - 1) n)
        = t * 256 ^ (L - 1) + n mod 256 ^ (L - 1)"
      by (simp add: be_value_Cons ut be_value_be_bytes assms(1))
    also have "\<dots> = n" unfolding t_def by (rule div_mult_mod_eq)
    finally show ?thesis .
  qed
  show ?thesis
    using r(1) v by (simp add: decodeVint_def enc w nz s)
qed

text \<open>
  Claim C2, as amended. For every integer \<open>n\<close> with \<open>0 \<le> n < 2 ^ 31\<close>, reading back the
  size field written by \<open>encodeVint n\<close> (whatever bytes follow it) gives exactly \<open>n\<close> and
  consumes exactly the field; and \<open>encodeVint 0\<close> is the single byte \<open>0x80\<close>.
\<close>

theorem encodeVint_roundtrip:
  "(0 \<le> n \<and> n < 2 ^ 31 \<longrightarrow> decodeVint (encodeVint n @ rest) = Some (n, rest))
   \<and> encodeVint 0 = [0x80]"
proof
  show "0 \<le> n \<and> n < 2 ^ 31 \<longrightarrow> decodeVint (encodeVint n @ rest) = Some (n, rest)"
    by (simp add: decode_encode)
  show "encodeVint 0 = [0x80]"
    by (simp add: encodeVint_def toInt32_def)
qed

theorem encodeVint_roundtrip_witness:
  "map (\<lambda>n. decodeVint (encodeVint n @ [0xa3]))
       [0, 1, 126, 127, 128, 16383, 16384, 2000000]
   = map (\<lambda>n. Some (n, [0xa3])) [0, 1, 126, 127, 128, 16383, 16384, 2000000]"
  using encodeVint_roundtrip [of 0 "[0xa3]"] encodeVint_roundtrip [of 1 "[0xa3]"]
    encodeVint_roundtrip [of 126 "[0xa3]"] encodeVint_roundtrip [of 127 "[0xa3]"]
    encodeVint_roundtrip [of 128 "[0xa3]"] encodeVint_roundtrip [of 16383 "[0xa3]"]
    encodeVint_roundtrip [of 16384 "[0xa3]"] encodeVint_roundtrip [of 2000000 "[0xa3]"]
  by simp

text \<open>
  Claim C2 as stated, for every non-negative integer, fails at \<open>2 ^ 56\<close>: the length loop
  stops at eight bytes, ToInt32 of the value is 0, and the field written reads back
  as 0.
\<close>

theorem encodeVint_roundtrip_counterexample:
  "encodeVint 72057594037927936 = [0x01, 0, 0, 0, 0, 0, 0, 0]
   \<and> decodeVint (encodeVint 72057594037927936) = Some (0, [])"
  by (simp add: encodeVint_def toInt32_def decodeVint_def vint_width_def be_value_def word_le_def)

section \<open>The element framer and \<open>concatArrays\<close>\<close>

lemma length_typed_set:
  "set_fits target source offset \<Longrightarrow> length (typed_set target source offset) = length target"
  by (simp add: set_fits_def typed_set_def)

lemma typed_set_zeros:
  "typed_set (pre @ replicate (length src + n) 0) src (length pre) = pre @ src @ replicate n 0"
  by (simp add: typed_set_def)

lemma encodeElement_eq:
  "encodeElement ident data = map word_of_int ident @ encodeVint (int (length data)) @ data"
proof -
  let ?i = "map word_of_int ident :: Uint8Array"
  let ?s = "encodeVint (int (length data))"
  have 1: "typed_set (replicate (length ident + length ?s + length data) 0) ?i 0
         = ?i @ replicate (length ?s + length data) 0"
    using typed_set_zeros [of "[]" ?i "length ?s + length data"] by (simp add: add.assoc)
  have 2: "typed_set (?i @ replicate (length ?s + length data) 0) ?s (length ident)
         = ?i @ ?s @ replicate (length data) 0"
    using typed_set_zeros [of ?i ?s "length data"] by simp
  have 3: "typed_set (?i @ ?s @ replicate (length data) 0) data (length ident + length ?s)
         = ?i @ ?s @ data"
    using typed_set_zeros [of "?i @ ?s" data 0] by simp
  show ?thesis
    by (simp only: encodeElement_def Let_def 1 2 3)
qed

lemma encodeElement_sets_fit:
  fixes ident :: "int list" and data :: Uint8Array
  defines "sz \<equiv> encodeVint (int (length data))"
  defines "r0 \<equiv> replicate (length ident + length sz + length data) (0::byte)"
  defines "r1 \<equiv> typed_set r0 (map word_of_int ident) 0"
  defines "r2 \<equiv> typed_set r1 sz (length ident)"
  shows "set_fits r0 ident 0 \<and> set_fits r1 sz (length ident)
         \<and> set_fits r2 data (length ident + length sz)"
proof -
  have 0: "set_fits r0 (map word_of_int ident :: Uint8Array) 0" by (simp add: set_fits_def r0_def)
  then have l1: "length r1 = length r0" unfolding r1_def by (rule length_typed_set)
  then have 1: "set_fits r1 sz (length ident)" by (simp add: set_fits_def r0_def)
  then have l2: "length r2 = length r1" unfolding r2_def by (rule length_typed_set)
  then show ?thesis using 0 1 l1 by (simp add: set_fits_def r0_def)
qed

lemma foldl_length_sum:
  "foldl (\<lambda>sum arr. sum + length arr) a arrays = a + length (concat arrays)"
  by (induction arrays arbitrary: a) auto

lemma concat_loop_eq:
  "concat_loop (pre @ replicate (length (concat arrays)) 0) (length pre) arrays
   = pre @ concat arrays"
proof (induction arrays arbitrary: pre)
  case Nil
  then show ?case by simp
next
  case (Cons arr arrays)
  have "typed_set (pre @ replicate (length (concat (arr # arrays))) 0) arr (length pre)
      = (pre @ arr) @ replicate (length (concat arrays)) 0"
    using typed_set_zeros [of pre arr "length (concat arrays)"] by simp
  then show ?case using Cons.IH [of "pre @ arr"] by simp
qed

lemma concatArrays_eq: "concatArrays arrays = concat arrays"
  using concat_loop_eq [of "[]" arrays] by (simp add: concatArrays_def foldl_length_sum)

lemma concat_loop_fits:
  "concat_fits (pre @ replicate (length (concat arrays)) 0) (length pre) arrays"
proof (induction arrays arbitrary: pre)
  case Nil
  then show ?case by simp
next
  case (Cons arr arrays)
  have "typed_set (pre @ replicate (length (concat (arr # arrays))) 0) arr (length pre)
      = (pre @ arr) @ replicate (length (concat arrays)) 0"
    using typed_set_zeros [of pre arr "length (concat arrays)"] by simp
  then show ?case using Cons.IH [of "pre @ arr"] by (simp add: set_fits_def)
qed

lemma concatArrays_sets_fit:
  "concat_fits (replicate (foldl (\<lambda>sum arr. sum + length arr) 0 arrays) 0) 0 arrays"
  using concat_loop_fits [of "[]" arrays] by (simp add: foldl_length_sum)

lemma encodeElement_length:
  "length (encodeElement ident data)
   = length ident + length (encodeVint (int (length data))) + length data"
  by (simp add: encodeElement_eq)

lemma encodeElement_reads_back:
  assumes "int (length data) < 2 ^ 31"
  shows "decodeVint (drop (length ident) (encodeElement ident data))
         = Some (int (length data), data)"
  using decode_encode [OF _ assms, of data] by (simp add: encodeElement_eq)

lemma encodeVint_2GiB: "encodeVint 2147483648 = [0xff, 0x80, 0, 0, 0]"
  by (simp add: encodeVint_def toInt32_def)

text \<open>
  Claim C1 at a payload of \<open>2 ^ 31\<close> bytes. The element is still the id, the size field
  and the payload, one after the other; but the size field is \<open>ff 80 00 00 00\<close>
  (\<open>value & 0xff\<close> and \<open>value >>= 8\<close> work on ToInt32 of the length, which is negative
  here), and it reads back as a one-byte field of value 127, not as the payload length.
  Below \<open>2 ^ 31\<close> bytes the field reads back as the length
  (\<open>encodeElement_reads_back\<close>).
\<close>

theorem encodeElement_size_field_2GiB:
  "encodeElement [0xa3] (replicate 2147483648 0)
     = [0xa3, 0xff, 0x80, 0, 0, 0] @ replicate 2147483648 0
   \<and> decodeVint (drop 1 (encodeElement [0xa3] (replicate 2147483648 0)))
     = Some (127, [0x80, 0, 0, 0] @ replicate 2147483648 0)"
  by (simp add: encodeElement_eq encodeVint_2GiB decodeVint_def vint_width_def
      be_value_def word_le_def)

section \<open>The bitstream extractor\<close>

subsection \<open>The scan\<close>

lemma scan_none:
  "(\<And>j. i \<le> j \<Longrightarrow> int j \<le> int (length webp) - 10 \<Longrightarrow> \<not> signature_at webp j) \<Longrightarrow>
   extract_scan webp i = Inl (Error ''VP8 bitstream not found in WebP image.'')"
proof (induction webp i rule: extract_scan.induct)
  case (1 webp i)
  show ?case
  proof (cases "int i \<le> int (length webp) - 10")
    case True
    then have n: "\<not> signature_at webp i" using "1.prems" [of i] by simp
    have "extract_scan webp (i + 1) = Inl (Error ''VP8 bitstream not found in WebP image.'')"
      using True n "1.prems" by (intro "1.IH") auto
    then show ?thesis using True n by (subst extract_scan.simps) simp
  next
    case False
    then show ?thesis by (subst extract_scan.simps) simp
  qed
qed

lemma scan_first:
  "i \<le> j \<Longrightarrow> int j \<le> int (length webp) - 10 \<Longrightarrow> signature_at webp j \<Longrightarrow>
   (\<And>k. i \<le> k \<Longrightarrow> k < j \<Longrightarrow> \<not> signature_at webp k) \<Longrightarrow>
   extract_scan webp i
   = Inr (subarray webp (int j + 8) (int j + 8 + chunk_size webp j))"
proof (induction webp i rule: extract_scan.induct)
  case (1 webp i)
  have r: "int i \<le> int (length webp) - 10" using "1.prems"(1,2) by simp
  show ?case
  proof (cases "signature_at webp i")
    case True
    then have "i = j" using "1.prems"(1) "1.prems"(4) [of i] by (cases "i < j") auto
    then show ?thesis using True r by (subst extract_scan.simps) (simp add: Let_def)
  next
    case False
    then have "i \<noteq> j" using "1.prems"(3) by auto
    then have "extract_scan webp (i + 1)
        = Inr (subarray webp (int j + 8) (int j + 8 + chunk_size webp j))"
      using r False "1.prems" by (intro "1.IH") auto
    then show ?thesis using False r by (subst extract_scan.simps) simp
  qed
qed

lemma scan_found:
  assumes "int j \<le> int (length webp) - 10" "signature_at webp j"
  shows "\<exists>vp8. extract_scan webp 0 = Inr vp8"
proof -
  define j0 where "j0 = (LEAST k. signature_at webp k)"
  have s: "signature_at webp j0" unfolding j0_def using assms(2) by (rule LeastI)
  have "j0 \<le> j" unfolding j0_def using assms(2) by (rule Least_le)
  then have r: "int j0 \<le> int (length webp) - 10" using assms(1) by simp
  have "\<And>k. k < j0 \<Longrightarrow> \<not> signature_at webp k"
    unfolding j0_def by (rule not_less_Least)
  then show ?thesis using scan_first [of 0 j0 webp] s r by auto
qed

text \<open>
  Claim C5. \<open>extractVP8Bitstream\<close> raises its error exactly when the signature
  \<open>"VP8 "\<close> stands at no offset \<open>i\<close> with \<open>0 \<le> i \<le> length webp - 10\<close>; and when the
  signature stands at such an offset, a bitstream is returned.
\<close>

theorem extractVP8Bitstream_error_iff:
  "(extractVP8Bitstream webp = Inl (Error ''VP8 bitstream not found in WebP image.'')
      \<longleftrightarrow> \<not> (\<exists>i. int i \<le> int (length webp) - 10 \<and> signature_at webp i))
   \<and> ((\<exists>i. int i \<le> int (length webp) - 10 \<and> signature_at webp i)
      \<longrightarrow> (\<exists>vp8. extractVP8Bitstream webp = Inr vp8))"
proof (cases "\<exists>i. int i \<le> int (length webp) - 10 \<and> signature_at webp i")
  case True
  then obtain vp8 where "extract_scan webp 0 = Inr vp8" using scan_found by blast
  then show ?thesis using True by (simp add: extractVP8Bitstream_def)
next
  case False
  then have "extract_scan webp 0 = Inl (Error ''VP8 bitstream not found in WebP image.'')"
    by (intro scan_none) blast
  then show ?thesis using False by (simp add: extractVP8Bitstream_def)
qed

theorem extractVP8Bitstream_error_iff_witness:
  "(\<exists>vp8. extractVP8Bitstream [0x56, 0x50, 0x38, 0x20, 2, 0, 0, 0, 7, 8] = Inr vp8)
   \<and> extractVP8Bitstream [0x56, 0x50, 0x38, 0x20, 1, 0, 0, 0, 7]
       = Inl (Error ''VP8 bitstream not found in WebP image.'')"
proof
  have "int 0 \<le> int (length [0x56, 0x50, 0x38, 0x20, 2, 0, 0, 0, 7, 8 :: byte]) - 10
        \<and> signature_at [0x56, 0x50, 0x38, 0x20, 2, 0, 0, 0, 7, 8] 0"
    by (simp add: signature_at_def)
  then have "\<exists>i. int i \<le> int (length [0x56, 0x50, 0x38, 0x20, 2, 0, 0, 0, 7, 8 :: byte]) - 10
        \<and> signature_at [0x56, 0x50, 0x38, 0x20, 2, 0, 0, 0, 7, 8] i"
    by (rule exI)
  then show "\<exists>vp8. extractVP8Bitstream [0x56, 0x50, 0x38, 0x20, 2, 0, 0, 0, 7, 8] = Inr vp8"
    using extractVP8Bitstream_error_iff [of "[0x56, 0x50, 0x38, 0x20, 2, 0, 0, 0, 7, 8]"]
    by blast
  show "extractVP8Bitstream [0x56, 0x50, 0x38, 0x20, 1, 0, 0, 0, 7]
       = Inl (Error ''VP8 bitstream not found in WebP image.'')"
    using extractVP8Bitstream_error_iff [of "[0x56, 0x50, 0x38, 0x20, 1, 0, 0, 0, 7]"]
    by simp
qed

subsection \<open>The chunk size\<close>





lemma synthetic_nth:
  fixes header p :: Uint8Array and L :: nat
  assumes "length header = 13"
  defines "buffer \<equiv> header @ [0x56, 0x50, 0x38, 0x20] @ le32 L @ p"
  shows "buffer ! 13 = 0x56" "buffer ! 14 = 0x50" "buffer ! 15 = 0x38" "buffer ! 16 = 0x20"
    "buffer ! 17 = word_of_nat L" "buffer ! 18 = word_of_nat (L div 2 ^ 8)"
    "buffer ! 19 = word_of_nat (L div 2 ^ 16)" "buffer ! 20 = word_of_nat (L div 2 ^ 24)"
    "\<And>k. k < 13 \<Longrightarrow> buffer ! k = header ! k"
  using assms(1) by (simp_all add: buffer_def nth_append le32_def)



lemma zero_header_no_signature: "k + 4 \<le> 13 \<Longrightarrow> \<not> signature_at (replicate 13 0) k"
  by (simp add: signature_at_def)


text \<open>
  The upper bound of the amended claim: the four size bytes are combined with \<open><<\<close> and
  \<open>|\<close>, so a declared size of \<open>2 ^ 31\<close> is read as \<open>- 2 ^ 31\<close>, the end of the slice
  counts from the end of the buffer, and 21 bytes come back.
\<close>

lemma extract_declared_2GiB:
  "extractVP8Bitstream
     (replicate 13 0 @ [0x56, 0x50, 0x38, 0x20] @ le32 2147483648 @ replicate 2147483648 0)
   = Inr (replicate 21 0)"
proof -
  define buffer :: Uint8Array
    where "buffer = replicate 13 0 @ [0x56, 0x50, 0x38, 0x20] @ le32 2147483648
                    @ replicate 2147483648 0"
  note n = synthetic_nth [where header = "replicate 13 0" and L = 2147483648
      and p = "replicate 2147483648 0", folded buffer_def, simplified]
  have len: "length buffer = 2147483669" by (simp add: buffer_def le32_def)
  have s: "signature_at buffer 13" by (simp add: signature_at_def n)
  have none: "\<not> signature_at buffer k" if "k < 13" for k
    using that by (simp add: signature_at_def n(9))
  have c: "chunk_size buffer 13 = - 2147483648"
    by (simp add: chunk_size_def n toInt32_def)
  have "extract_scan buffer 0
      = Inr (subarray buffer (int 13 + 8) (int 13 + 8 + chunk_size buffer 13))"
    using s none by (intro scan_first) (auto simp: len)
  also have "subarray buffer (int 13 + 8) (int 13 + 8 + chunk_size buffer 13) = replicate 21 0"
    by (simp add: c subarray_def len) (simp add: buffer_def le32_def)
  finally show ?thesis by (simp add: extractVP8Bitstream_def buffer_def)
qed

section \<open>Two-byte fields\<close>

lemma toInt32_range: "- (2 ^ 31) \<le> toInt32 v" "toInt32 v < 2 ^ 31"
  by (simp_all add: toInt32_def)

lemma toInt32_idem: "- (2 ^ 31) \<le> v \<Longrightarrow> v < 2 ^ 31 \<Longrightarrow> toInt32 v = v"
  by (simp add: toInt32_def)

lemma toInt32_mod_256: "toInt32 v mod 256 = v mod 256"
proof -
  have "toInt32 v mod 256 = ((v + 2 ^ 31) mod 2 ^ 32 - 2 ^ 31) mod 256"
    by (simp add: toInt32_def)
  also have "\<dots> = ((v + 2 ^ 31) mod 2 ^ 32 mod 256 - 2 ^ 31 mod 256) mod 256"
    by (simp only: mod_diff_eq)
  also have "(v + 2 ^ 31) mod 2 ^ 32 mod 256 = (v + 2 ^ 31) mod 256"
    by (rule mod_mod_cancel) simp
  also have "(v + 2 ^ 31) mod 256 = (v mod 256 + 2 ^ 31 mod 256) mod 256"
    by (simp only: mod_add_eq)
  finally show ?thesis by simp
qed

lemma toInt32_mod_65536: "toInt32 v mod 65536 = v mod 65536"
proof -
  have "toInt32 v mod 65536 = ((v + 2 ^ 31) mod 2 ^ 32 - 2 ^ 31) mod 65536"
    by (simp add: toInt32_def)
  also have "\<dots> = ((v + 2 ^ 31) mod 2 ^ 32 mod 65536 - 2 ^ 31 mod 65536) mod 65536"
    by (simp only: mod_diff_eq)
  also have "(v + 2 ^ 31) mod 2 ^ 32 mod 65536 = (v + 2 ^ 31) mod 65536"
    by (rule mod_mod_cancel) simp
  also have "(v + 2 ^ 31) mod 65536 = (v mod 65536 + 2 ^ 31 mod 65536) mod 65536"
    by (simp only: mod_add_eq)
  finally show ?thesis by simp
qed

lemma two_bytes_value:
  "be_value [word_of_int (toInt32 (drop_bit 8 (toInt32 t)) AND 0xff),
             word_of_int (toInt32 t AND 0xff)] = t mod 65536"
proof -
  define s where "s = toInt32 t"
  have "s div 256 mod 256 * 256 + s mod 256 = s mod 65536"
    using zmod_zmult2_eq [of 256 s 256] by simp
  then have "toInt32 (s div 256) mod 256 * 256 + s mod 256 = t mod 65536"
    by (simp add: toInt32_mod_256 s_def toInt32_mod_65536)
  then show ?thesis
    by (simp add: be_value_def and_255 drop_bit_eq_div uint_word_of_int s_def)
qed

section \<open>Doubles that hold integers\<close>

text \<open>
  A non-negative integer below \<open>2 ^ 53\<close> is a double, rounding leaves it alone, and a
  sum of two such integers that stays below \<open>2 ^ 53\<close> is exact. So the running
  timecode of the cluster loop, after \<open>k\<close> rounds with an integral frame duration \<open>d\<close>,
  is \<open>k * d\<close>.
\<close>

lemma pow2_nonneg: "0 \<le> e \<Longrightarrow> pow2 e = 2 ^ nat e"
  by (simp add: pow2_def)

lemma pow2_neg: "e \<le> 0 \<Longrightarrow> pow2 e = 1 / 2 ^ nat (- e)"
  by (simp add: pow2_def)

lemma round_half_even_int: "round_half_even (of_int n) = n"
  by (simp add: round_half_even_def)

lemma floor_log2_int:
  assumes "0 < n"
  shows "floor_log2 (of_int n) = bitlen n - 1"
proof -
  have b: "1 \<le> bitlen n" using assms bitlen_eq_zero_iff [of n] bitlen_nonneg [of n] by linarith
  have "(2::int) ^ nat (bitlen n - 1) \<le> n" using bitlen_bounds [OF assms] by simp
  then have "rat_of_int (2 ^ nat (bitlen n - 1)) \<le> rat_of_int n" by (simp only: of_int_le_iff)
  then have "pow2 (bitlen n - 1) \<le> rat_of_int n" using b by (simp add: pow2_nonneg)
  moreover have "bitlen 1 = 1" by (simp add: bitlen_alt_def)
  ultimately show ?thesis by (simp add: floor_log2_def)
qed

lemma round64_int:
  assumes "0 \<le> n" "n < 2 ^ 53"
  shows "round64 s (of_int n) = Fin s (of_int n)"
proof (cases "n = 0")
  case True
  then show ?thesis by (simp add: round64_def)
next
  case False
  then have p: "0 < n" using assms(1) by simp
  define e where "e = bitlen n - 1"
  have e0: "0 \<le> e" using p bitlen_eq_zero_iff [of n] bitlen_nonneg [of n] by (simp add: e_def)
  have "bitlen n \<le> 53" using assms(2) p by (simp add: bitlen_le_iff_power)
  then have e52: "e \<le> 52" by (simp add: e_def)
  have fl: "floor_log2 (of_int n) = e" using floor_log2_int [OF p] by (simp add: e_def)
  have m: "rat_of_int n * pow2 (52 - e) = of_int (n * 2 ^ nat (52 - e))"
    using e52 by (simp add: pow2_nonneg)
  have v: "rat_of_int (n * 2 ^ nat (52 - e)) * pow2 (e - 52) = of_int n"
    using e52 by (simp add: pow2_neg)
  have "rat_of_int n < 2 ^ 1024"
  proof -
    have "rat_of_int n < rat_of_int (2 ^ 53)" using assms(2) by (simp only: of_int_less_iff)
    also have "\<dots> < 2 ^ 1024" by simp
    finally show ?thesis .
  qed
  then have big: "\<not> 2 ^ 1024 \<le> rat_of_int n" by simp
  have nz: "rat_of_int n \<noteq> 0" using p by simp
  have mx: "max e (- 1022) = e" using e0 by simp
  show ?thesis
    unfolding round64_def Let_def fl mx m round_half_even_int v
    using nz big by simp
qed

lemma round64_zero: "round64 s 0 = Fin s 0"
  by (simp add: round64_def)

lemma Num_nonneg: "0 \<le> x \<Longrightarrow> Num x = Fin False x"
  by (simp add: Num_def)

lemma Num_of_int: "0 \<le> n \<Longrightarrow> Num (of_int n) = Fin False (of_int n)"
  by (simp add: Num_def)

lemma Num_zero: "Num 0 = Fin False 0"
  by (simp add: Num_def)

lemma Num_1000: "Num 1000 = Fin False 1000"
  by (simp add: Num_def)

lemma js_add_int:
  assumes "0 \<le> a" "0 \<le> b" "a + b < 2 ^ 53"
  shows "js_add (Num (of_int a)) (Num (of_int b)) = Num (of_int (a + b))"
proof (cases "a + b = 0")
  case True
  then have "a = 0" "b = 0" using assms by auto
  then show ?thesis by (simp add: Num_def signed_def)
next
  case False
  then have p: "0 < a + b" using assms by simp
  have r: "round64 False (rat_of_int (a + b)) = Fin False (rat_of_int (a + b))"
    using assms by (intro round64_int) auto
  have e: "rat_of_int a + rat_of_int b = rat_of_int (a + b)" by simp
  have "js_add (Fin False (of_int a)) (Fin False (of_int b))
      = (let x = rat_of_int (a + b) in if x = 0 then Fin False 0 else round64 (x < 0) \<bar>x\<bar>)"
    by (simp only: js_add.simps signed_def if_False e simp_thms)
  also have "\<dots> = Fin False (rat_of_int (a + b))"
    using p r by (simp add: Let_def del: of_int_add)
  finally show ?thesis using assms by (simp only: Num_of_int add_nonneg_nonneg)
qed

lemma running_timecode_int:
  assumes "0 \<le> d" "int k * d < 2 ^ 53"
  shows "running_timecode (Num (of_int d)) k = Num (of_int (int k * d))"
  using assms(2)
proof (induction k)
  case 0
  then show ?case by (simp add: running_timecode_def)
next
  case (Suc k)
  have le: "int k * d \<le> int (Suc k) * d" using assms(1) by (simp add: algebra_simps)
  then have "running_timecode (Num (of_int d)) k = Num (of_int (int k * d))"
    using Suc by simp
  then have "running_timecode (Num (of_int d)) (Suc k)
      = js_add (Num (of_int (int k * d))) (Num (of_int d))"
    by (simp add: running_timecode_def)
  also have "\<dots> = Num (of_int (int k * d + d))"
    using assms(1) Suc.prems by (intro js_add_int) (simp_all add: algebra_simps)
  finally show ?case by (simp add: algebra_simps)
qed

lemma math_round_nonneg:
  "0 \<le> q \<Longrightarrow> math_round (Fin False q) = Num (of_int \<lfloor>q + 1 / 2\<rfloor>)"
  by (simp add: signed_def Num_def)

lemma number_toInt32_int: "number_toInt32 (Num (of_int t)) = toInt32 t"
  by (simp add: Num_def)

lemma floor_rat_numeral: "\<lfloor>numeral a / numeral b :: rat\<rfloor> = numeral a div numeral b"
  by (metis floor_divide_of_int_eq of_int_numeral)

subsection \<open>Quotients that stay finite\<close>

text \<open>
  Rounding adds at most half a unit of the last place, so a quotient below \<open>2 ^ 1023\<close>
  does not overflow: for every \<open>fps > 0\<close> with \<open>1000 / fps < 2 ^ 1023\<close> the double
  \<open>1000 / fps\<close> is finite and not negative.
\<close>

lemma pow2_powi: "pow2 e = 2 powi e"
  by (simp add: pow2_def power_int_def power_one_over inverse_eq_divide)

lemma pow2_pos: "0 < pow2 e"
  by (simp add: pow2_powi)

lemma pow2_add: "pow2 (a + b) = pow2 a * pow2 b"
  by (simp add: pow2_powi power_int_add)

lemma pow2_mono: "a \<le> b \<Longrightarrow> pow2 a \<le> pow2 b"
  by (simp add: pow2_powi power_int_increasing)

lemma floor_log2_le:
  assumes "0 < a"
  shows "pow2 (floor_log2 a) \<le> a"
proof -
  obtain p q where pq: "quotient_of a = (p, q)" by (cases "quotient_of a")
  have q: "0 < q" using quotient_of_denom_pos [OF pq] .
  have a: "a = of_int p / of_int q" using quotient_of_div [OF pq] .
  have p: "0 < p" using assms q by (simp add: a zero_less_divide_iff)
  define d where "d = bitlen p - bitlen q"
  have fl: "floor_log2 a = (if pow2 d \<le> a then d else d - 1)"
    by (simp add: floor_log2_def pq d_def Let_def)
  have "pow2 (d - 1) \<le> a"
  proof -
    have bp: "1 \<le> bitlen p" using p bitlen_eq_zero_iff [of p] bitlen_nonneg [of p] by linarith
    have bq: "0 \<le> bitlen q" by (rule bitlen_nonneg)
    have "(2::int) ^ nat (bitlen p - 1) \<le> p" using bitlen_bounds [OF p] by simp
    then have "rat_of_int (2 ^ nat (bitlen p - 1)) \<le> rat_of_int p" by (simp only: of_int_le_iff)
    then have lp: "pow2 (bitlen p - 1) \<le> rat_of_int p" using bp by (simp add: pow2_def)
    have "q < 2 ^ nat (bitlen q)" using bitlen_bounds [OF q] by simp
    then have "rat_of_int q < rat_of_int (2 ^ nat (bitlen q))" by (simp only: of_int_less_iff)
    then have uq: "rat_of_int q \<le> pow2 (bitlen q)" using bq by (simp add: pow2_def)
    have "pow2 (d - 1) * pow2 (bitlen q) = pow2 (bitlen p - 1)"
      by (simp add: pow2_add [symmetric] d_def)
    then have "pow2 (d - 1) * rat_of_int q \<le> pow2 (bitlen p - 1)"
      using uq pow2_pos [of "d - 1"] by (metis mult_left_mono less_imp_le)
    then have "pow2 (d - 1) * rat_of_int q \<le> rat_of_int p" using lp by simp
    then show ?thesis using q by (simp add: a pos_le_divide_eq)
  qed
  then show ?thesis by (simp add: fl)
qed

lemma round_half_even_le: "rat_of_int (round_half_even y) \<le> y + 1 / 2"
proof -
  define f where "f = \<lfloor>y\<rfloor>"
  have a: "rat_of_int f \<le> y" unfolding f_def by (rule of_int_floor_le)
  consider "y - rat_of_int f < 1 / 2" | "1 / 2 < y - rat_of_int f" | "y - rat_of_int f = 1 / 2"
    by linarith
  then show ?thesis
  proof cases
    case 1
    then have "round_half_even y = f" by (simp add: round_half_even_def f_def)
    then show ?thesis using a by simp
  next
    case 2
    then have "round_half_even y = f + 1" by (simp add: round_half_even_def f_def Let_def)
    then have "rat_of_int (round_half_even y) = rat_of_int f + 1" by simp
    then show ?thesis using 2 by linarith
  next
    case 3
    then have "round_half_even y = f \<or> round_half_even y = f + 1"
      by (simp add: round_half_even_def f_def Let_def)
    then have "rat_of_int (round_half_even y) = rat_of_int f
        \<or> rat_of_int (round_half_even y) = rat_of_int f + 1" by auto
    then show ?thesis using 3 by linarith
  qed
qed

lemma round_half_even_nonneg: "0 \<le> y \<Longrightarrow> 0 \<le> round_half_even y"
  by (simp add: round_half_even_def Let_def)

lemma round64_finite:
  assumes "0 < m" "m < 2 ^ 1023"
  shows "\<exists>q. 0 \<le> q \<and> round64 s m = Fin s q"
proof -
  define e where "e = max (floor_log2 m) (- 1022)"
  define r where "r = round_half_even (m * pow2 (52 - e))"
  define v where "v = rat_of_int r * pow2 (e - 52)"
  have r0: "0 \<le> r" unfolding r_def
    using assms(1) pow2_pos [of "52 - e"] by (intro round_half_even_nonneg) simp
  have v0: "0 \<le> v" unfolding v_def using r0 pow2_pos [of "e - 52"] by simp
  have "rat_of_int r \<le> m * pow2 (52 - e) + 1 / 2" unfolding r_def by (rule round_half_even_le)
  then have "v \<le> (m * pow2 (52 - e) + 1 / 2) * pow2 (e - 52)"
    unfolding v_def using pow2_pos [of "e - 52"] by (intro mult_right_mono) simp_all
  also have "\<dots> = m * (pow2 (52 - e) * pow2 (e - 52)) + pow2 (e - 52) / 2"
    by (simp add: algebra_simps)
  also have "pow2 (52 - e) * pow2 (e - 52) = 1"
    by (simp add: pow2_add [symmetric] pow2_def)
  finally have vm: "v \<le> m + pow2 (e - 52) / 2" by simp
  have "pow2 (e - 52) \<le> 2 ^ 1023"
  proof (cases "floor_log2 m \<le> - 1022")
    case True
    then have "e = - 1022" by (simp add: e_def)
    then have "pow2 (e - 52) \<le> pow2 0" by (intro pow2_mono) simp
    also have "\<dots> \<le> 2 ^ 1023" by (simp add: pow2_def)
    finally show ?thesis .
  next
    case False
    then have "e = floor_log2 m" by (simp add: e_def)
    then have "pow2 (e - 52) \<le> pow2 (floor_log2 m)" by (intro pow2_mono) simp
    also have "\<dots> \<le> m" by (rule floor_log2_le [OF assms(1)])
    finally show ?thesis using assms(2) by simp
  qed
  then have "v < 2 ^ 1023 + 2 ^ 1023 / 2" using vm assms(2) by linarith
  also have "\<dots> \<le> (2::rat) ^ 1024" by simp
  finally have "\<not> 2 ^ 1024 \<le> v" by simp
  then have "round64 s m = Fin s v"
    using assms(1) by (simp add: round64_def Let_def e_def [symmetric] r_def [symmetric] v_def [symmetric])
  then show ?thesis using v0 by blast
qed

lemma quotient_finite:
  assumes "0 < f" "1000 / f < 2 ^ 1023"
  shows "\<exists>q. 0 \<le> q \<and> js_div (Num 1000) (Fin False f) = Fin False q"
proof -
  have "0 < 1000 / f" using assms(1) by simp
  then obtain q where "0 \<le> q" "round64 False (1000 / f) = Fin False q"
    using round64_finite [OF _ assms(2)] by blast
  then show ?thesis using assms(1) by (auto simp add: Num_def)
qed

subsection \<open>The arithmetic at particular values\<close>

text \<open>
  The frame durations of the examples below, and the arithmetic where rounding,
  the sign of zero and overflow decide the result.
  \<^item> At \<open>fps = 3909374676536889 / 2 ^ 44\<close>, the double nearest to \<open>2000 / 9\<close>, the exact
    quotient is below \<open>9 / 2\<close>, the double quotient is \<open>9 / 2\<close>, and the frame duration
    is 5.
  \<^item> At \<open>fps = - 3000\<close> the frame duration is the negative zero, and so is the duration
    of an empty document: \<open>80 00 00 00 00 00 00 00\<close>.
  \<^item> At \<open>fps = 2 ^ - 1020\<close> the quotient \<open>1000 / fps\<close> overflows to \<open>Infinity\<close>.
  \<^item> The duration of three frames of 100 ms, \<open>300 / 1000\<close>, is stored as the double
    \<open>3fd3333333333333\<close>.
\<close>

lemma quotient_10: "js_div (Num 1000) (Num 10) = Fin False 100"
  by code_simp


lemma frame_duration_32000: "math_round (js_div (Num 1000) (Num (1 / 32))) = Num 32000"
  by code_simp

lemma quotient_rounds_to_tie:
  "js_div (Num 1000) (Num (3909374676536889 / 2 ^ 44)) = Fin False (9 / 2)"
  "math_round (js_div (Num 1000) (Num (3909374676536889 / 2 ^ 44))) = Num 5"
  by code_simp+

lemma negative_zero_duration:
  "math_round (js_div (Num 1000) (Num (- 3000))) = Fin True 0"
  "float64ToArray (js_div (js_mul (math_round (js_div (Num 1000) (Num (- 3000)))) (Num 0))
                          (Num 1000))
   = [0x80, 0, 0, 0, 0, 0, 0, 0]"
  by code_simp+

lemma bitlen_1000: "bitlen 1000 = 10"
  by code_simp

lemma quotient_overflows:
  "js_div (Num 1000) (Num (1 / 2 ^ 1020)) = Inf False"
proof -
  define n :: int where "n = 1000 * 2 ^ 1020"
  have n: "0 < n" by (simp add: n_def)
  have "bitlen n = bitlen 1000 + 1020"
    unfolding n_def using bitlen_pow2 [of 1000 1020] by simp
  then have fl: "floor_log2 (of_int n) = 1029"
    using floor_log2_int [OF n] by (simp add: bitlen_1000)
  have p: "pow2 (- 977) = 1 / 2 ^ 977" "pow2 977 = 2 ^ 977"
    by (simp_all add: pow2_def)
  have "(2::rat) ^ 1020 = 2 ^ 43 * 2 ^ 977"
    by (simp only: power_add [symmetric]) simp
  then have s: "rat_of_int n * (1 / 2 ^ 977) = rat_of_int (1000 * 2 ^ 43)"
    by (simp add: n_def)
  have v: "(2::rat) ^ 1024 \<le> rat_of_int (1000 * 2 ^ 43) * 2 ^ 977"
  proof -
    have "(2::rat) ^ 1024 = 2 ^ 47 * 2 ^ 977"
      by (simp only: power_add [symmetric]) simp
    moreover have "(2::rat) ^ 47 \<le> rat_of_int (1000 * 2 ^ 43)" by simp
    ultimately show ?thesis by (simp only: mult_le_cancel_right) simp
  qed
  have z: "rat_of_int n \<noteq> 0" using n by simp
  have e: "max (floor_log2 (rat_of_int n)) (- 1022) = 1029" using fl by simp
  have d: "(52::int) - 1029 = - 977" "(1029::int) - 52 = 977" by simp_all
  have r: "round_half_even (rat_of_int n * pow2 (- 977)) = 1000 * 2 ^ 43"
    unfolding p s by (rule round_half_even_int)
  have "round64 False (of_int n) = Inf False"
    unfolding round64_def Let_def e d r p(2) using z v by (simp only: if_False if_True)
  moreover have "js_div (Num 1000) (Num (1 / 2 ^ 1020)) = round64 False (of_int n)"
    by (simp add: Num_def n_def)
  ultimately show ?thesis by simp
qed

lemma float64ToArray_three_tenths:
  "float64ToArray (js_div (js_mul (Num 100) (Num 3)) (Num 1000))
   = [0x3f, 0xd3, 0x33, 0x33, 0x33, 0x33, 0x33, 0x33]"
  by code_simp

section \<open>SimpleBlocks and their timecodes\<close>

text \<open>
  The two timecode bytes of a block are the two low bytes of the timecode, whatever
  ToInt32 does to it on the way; a reader of the signed 16-bit field gets the timecode
  back as long as it is at most 32767. At 30 frames per second (frame duration 33) the
  timecode of frame 993, 32769, is stored as \<open>80 01\<close> and reads as -32767.
\<close>

lemma word_of_int_and_255: "(word_of_int (k AND 0xff) :: byte) = word_of_int k"
  by (simp add: and_255 word_of_int_mod_256)

lemma byte_eq_mod: "a mod 256 = b mod 256 \<Longrightarrow> (word_of_int a :: byte) = word_of_int b"
  by (metis word_of_int_mod_256)

lemma high_byte_toInt32: "toInt32 (toInt32 t div 256) mod 256 = t div 256 mod 256"
proof -
  define s where "s = toInt32 t"
  have a: "s div 256 mod 256 * 256 + s mod 256 = s mod 65536"
    using zmod_zmult2_eq [of 256 s 256] by simp
  have b: "t div 256 mod 256 * 256 + t mod 256 = t mod 65536"
    using zmod_zmult2_eq [of 256 t 256] by simp
  have "s mod 65536 = t mod 65536" "s mod 256 = t mod 256"
    by (simp_all add: s_def toInt32_mod_65536 toInt32_mod_256)
  then have "s div 256 mod 256 = t div 256 mod 256" using a b by simp
  then show ?thesis by (simp add: toInt32_mod_256 s_def)
qed

lemma two_bytes_be16:
  "[word_of_int (toInt32 (drop_bit 8 (toInt32 t)) AND 0xff), word_of_int (toInt32 t AND 0xff)]
   = be16 t"
proof -
  have "(word_of_int (toInt32 (toInt32 t div 256)) :: byte) = word_of_int (t div 256)"
    by (rule byte_eq_mod) (rule high_byte_toInt32)
  moreover have "(word_of_int (toInt32 t) :: byte) = word_of_int t"
    by (rule byte_eq_mod) (rule toInt32_mod_256)
  ultimately show ?thesis
    by (simp only: word_of_int_and_255 drop_bit_eq_div be16_def) simp
qed

lemma timecode_bytes_int: "timecode_bytes (Num (of_int t)) = be16 t"
  by (simp only: timecode_bytes_def number_toInt32_int two_bytes_be16)

lemma timecode_bytes_zero: "timecode_bytes (running_timecode frameDurationMs 0) = [0, 0]"
  by (simp add: running_timecode_def timecode_bytes_def Num_def toInt32_def)

lemma be_value_be16: "be_value (be16 v) = v mod 65536"
proof -
  have "v div 256 mod 256 * 256 + v mod 256 = v mod 65536"
    using zmod_zmult2_eq [of 256 v 256] by simp
  then show ?thesis by (simp add: be16_def be_value_def uint_word_of_int)
qed

lemma take_be16: "take 2 (be16 v) = be16 v"
  by (simp add: be16_def)

lemma int16_be_be16:
  "0 \<le> v \<Longrightarrow> v \<le> 32767 \<Longrightarrow> int16_be (be16 v) = v"
  by (simp add: int16_be_def take_be16 be_value_be16 Let_def)

lemma be16_examples:
  "be16 0 = [0, 0]" "be16 100 = [0, 100]" "be16 200 = [0, 200]"
  "be16 333 = [0x01, 0x4d]" "be16 666 = [0x02, 0x9a]"
  "be16 32000 = [0x7d, 0x00]" "be16 64000 = [0xfa, 0x00]"
  by code_simp+

lemma wrap_at_30_fps:
  "math_round (js_div (Num 1000) (Num 30)) = Num 33"
  "be16 (992 * 33) = [0x7f, 0xe0]" "int16_be [0x7f, 0xe0] = 32736"
  "be16 (993 * 33) = [0x80, 0x01]" "int16_be [0x80, 0x01] = - 32767"
  by code_simp+

lemma createSimpleBlock_eq:
  "createSimpleBlock vp8Frame timecode
   = encodeElement [0xa3] ([0x81] @ timecode_bytes timecode @ [0x80] @ vp8Frame)"
  by (simp add: createSimpleBlock_def concatArrays_eq)

lemma length_simple_blocks [simp]: "length (simple_blocks frames tc d) = length frames"
  by (induction frames arbitrary: tc) auto

lemma simple_blocks_nth:
  "k < length frames \<Longrightarrow>
   simple_blocks frames tc fd ! k
   = createSimpleBlock (frames ! k) (((\<lambda>timecode. js_add timecode fd) ^^ k) tc)"
proof (induction frames arbitrary: tc k)
  case Nil
  then show ?case by simp
next
  case (Cons frame frames)
  show ?case
  proof (cases k)
    case 0
    then show ?thesis by simp
  next
    case (Suc j)
    then have "j < length frames" using Cons.prems by simp
    then have "simple_blocks frames (js_add tc fd) fd ! j
        = createSimpleBlock (frames ! j) (((\<lambda>timecode. js_add timecode fd) ^^ j) (js_add tc fd))"
      by (rule Cons.IH)
    moreover have "((\<lambda>timecode. js_add timecode fd) ^^ j) (js_add tc fd)
        = (\<lambda>timecode. js_add timecode fd) (((\<lambda>timecode. js_add timecode fd) ^^ j) tc)"
      by (rule funpow_swap1 [symmetric])
    ultimately show ?thesis using Suc by simp
  qed
qed

lemma simple_blocks_eq:
  "simple_blocks frames (Num 0) fd
   = map (\<lambda>k. encodeElement [0xa3]
                 ([0x81] @ timecode_bytes (running_timecode fd k) @ [0x80] @ frames ! k))
         [0..<length frames]"
  by (rule nth_equalityI)
     (simp_all add: simple_blocks_nth createSimpleBlock_eq running_timecode_def)

section \<open>The document\<close>

lemma uintToArray_2:
  "uintToArray v 2 = [word_of_int (toInt32 (drop_bit 8 (toInt32 v)) AND 0xff),
                      word_of_int (toInt32 v AND 0xff)]"
  by (simp add: uintToArray_def numeral_2_eq_2)

lemma uintToArray_zero_2: "uintToArray 0 2 = [0, 0]"
  by (simp add: uintToArray_2 toInt32_def)

lemma uintToArray_1: "uintToArray 1 (Suc 0) = [1]"
  by (simp add: uintToArray_def toInt32_def)

lemma be_value_uintToArray_2: "be_value (uintToArray v 2) = v mod 65536"
  by (simp only: uintToArray_2 two_bytes_value)

lemma track_entry_eq:
  "track_entry width height
   = encodeElement [0xae]
       (encodeElement [0xd7] [1] @ encodeElement [0x73, 0xc5] [1]
        @ encodeElement [0x9c] [0] @ encodeElement [0x83] [1]
        @ encodeElement [0x86] (text_encode ''V_VP8'')
        @ encodeElement [0xe0]
            (encodeElement [0xb0] (uintToArray width 2)
             @ encodeElement [0xba] (uintToArray height 2)))"
  by (simp add: track_entry_def concatArrays_eq uintToArray_1)

lemma uintToArray_timecode_scale: "uintToArray 1000000 4 = [0x00, 0x0f, 0x42, 0x40]"
  by (simp add: uintToArray_def toInt32_def eval_nat_numeral)

lemma segment_info_eq:
  "segment_info durationMs
   = encodeElement [0x15, 0x49, 0xa9, 0x66]
       (encodeElement [0x2a, 0xd7, 0xb1] [0x00, 0x0f, 0x42, 0x40]
        @ encodeElement [0x44, 0x89] (float64ToArray (js_div durationMs (Num 1000)))
        @ encodeElement [0x4d, 0x80] (text_encode ''AnimArrange'')
        @ encodeElement [0x57, 0x41] (text_encode ''AnimArrange''))"
  by (simp add: segment_info_def concatArrays_eq uintToArray_timecode_scale)

lemma empty_cluster:
  "encodeElement [0x1f, 0x43, 0xb6, 0x75] (encodeElement [0xe7] [0, 0])
   = [0x1f, 0x43, 0xb6, 0x75, 0x84, 0xe7, 0x82, 0, 0]"
  by (simp add: encodeElement_eq encodeVint_def toInt32_def)

lemma createWebM_layout:
  "createWebM frames frameDurationMs width height
   = ebml_header
     @ encodeElement [0x18, 0x53, 0x80, 0x67]
         (segment_info (js_mul frameDurationMs (Num (of_nat (length frames))))
          @ encodeElement [0x16, 0x54, 0xae, 0x6b] (track_entry width height)
          @ encodeElement [0x1f, 0x43, 0xb6, 0x75]
              (encodeElement [0xe7] [0, 0]
               @ concat (map (\<lambda>k. encodeElement [0xa3]
                                    ([0x81] @ timecode_bytes (running_timecode frameDurationMs k)
                                     @ [0x80] @ frames ! k))
                             [0..<length frames])))"
  by (simp add: createWebM_def concatArrays_eq uintToArray_zero_2 simple_blocks_eq)

lemma fromImageArray_error_iff:
  "fromImageArray atob frames fps width height = Inl e \<longleftrightarrow> map_frames atob frames = Inl e"
  by (simp add: fromImageArray_def split: sum.splits)

lemma fromImageArray_layout:
  assumes "map_frames atob frames = Inr vp8Frames"
  shows "fromImageArray atob frames fps width height
   = Inr \<lparr>blob_bytes =
       ebml_header
       @ encodeElement [0x18, 0x53, 0x80, 0x67]
           (segment_info (js_mul (math_round (js_div (Num 1000) fps))
                                 (Num (of_nat (length vp8Frames))))
            @ encodeElement [0x16, 0x54, 0xae, 0x6b] (track_entry width height)
            @ encodeElement [0x1f, 0x43, 0xb6, 0x75]
                (encodeElement [0xe7] [0, 0]
                 @ concat (map (\<lambda>k. encodeElement [0xa3]
                                      ([0x81]
                                       @ timecode_bytes
                                           (running_timecode (math_round (js_div (Num 1000) fps)) k)
                                       @ [0x80] @ vp8Frames ! k))
                               [0..<length vp8Frames]))),
       blob_type = ''video/webm''\<rparr>"
  using assms by (simp add: fromImageArray_def Let_def createWebM_layout)

lemma timecode_bytes_running:
  assumes "js_div (Num 1000) fps = Fin False q" "0 \<le> q"
    and "int k * \<lfloor>q + 1 / 2\<rfloor> < 2 ^ 53"
  shows "timecode_bytes (running_timecode (math_round (js_div (Num 1000) fps)) k)
         = be16 (int k * \<lfloor>q + 1 / 2\<rfloor>)"
proof -
  have d: "0 \<le> \<lfloor>q + 1 / 2\<rfloor>" using assms(2) by simp
  have "math_round (js_div (Num 1000) fps) = Num (of_int \<lfloor>q + 1 / 2\<rfloor>)"
    using assms(1,2) by (simp only: math_round_nonneg)
  then show ?thesis
    using running_timecode_int [OF d assms(3)] by (simp only: timecode_bytes_int)
qed

lemma fromImageArray_blocks:
  assumes "map_frames atob frames = Inr vp8Frames"
    and "math_round (js_div (Num 1000) fps) = Num (of_int d)" and "0 \<le> d"
    and "int (length vp8Frames) * d < 2 ^ 53"
  shows "fromImageArray atob frames fps width height
   = Inr \<lparr>blob_bytes =
       ebml_header
       @ encodeElement [0x18, 0x53, 0x80, 0x67]
           (segment_info (js_mul (Num (of_int d)) (Num (of_nat (length vp8Frames))))
            @ encodeElement [0x16, 0x54, 0xae, 0x6b] (track_entry width height)
            @ encodeElement [0x1f, 0x43, 0xb6, 0x75]
                (encodeElement [0xe7] [0, 0]
                 @ concat (map (\<lambda>k. encodeElement [0xa3]
                                      ([0x81] @ be16 (int k * d) @ [0x80] @ vp8Frames ! k))
                               [0..<length vp8Frames]))),
       blob_type = ''video/webm''\<rparr>"
proof -
  have "timecode_bytes (running_timecode (Num (of_int d)) k) = be16 (int k * d)"
    if "k < length vp8Frames" for k
  proof -
    have "int k * d \<le> int (length vp8Frames) * d"
      using that assms(3) by (intro mult_right_mono) auto
    then have "int k * d < 2 ^ 53" using assms(4) by simp
    then show ?thesis
      using running_timecode_int [OF assms(3)] by (simp only: timecode_bytes_int)
  qed
  then have "map (\<lambda>k. encodeElement [0xa3]
                 ([0x81] @ timecode_bytes (running_timecode (Num (of_int d)) k)
                  @ [0x80] @ vp8Frames ! k)) [0..<length vp8Frames]
      = map (\<lambda>k. encodeElement [0xa3]
                 ([0x81] @ be16 (int k * d) @ [0x80] @ vp8Frames ! k)) [0..<length vp8Frames]"
    by simp
  then show ?thesis
    using fromImageArray_layout [OF assms(1), of fps width height]
    by (simp only: assms(2))
qed

lemma float64ToArray_zero:
  "float64ToArray (Fin s 0) = [if s then 0x80 else 0x00, 0, 0, 0, 0, 0, 0, 0]"
  by (cases s) (simp_all add: float64ToArray_def upt_rec drop_bit_eq_div)

lemma float64ToArray_invalid: "float64ToArray invalid = [0xff, 0xf8, 0, 0, 0, 0, 0, 0]"
  by (simp add: float64ToArray_def invalid_def upt_rec drop_bit_eq_div)

lemma zero_duration:
  "js_div (js_mul (math_round (Fin s q)) (Num 0)) (Num 1000) = Fin s 0"
  by (simp add: Num_zero Num_1000 round64_zero)

lemma invalid_duration:
  "js_div (js_mul (math_round (js_div (Num 1000) (Num 0))) (Num 0)) (Num 1000) = invalid"
  by (simp add: Num_zero Num_1000 invalid_def)

lemma overflow_duration:
  "float64ToArray (js_div (js_mul (math_round (js_div (Num 1000) (Num (1 / 2 ^ 1020)))) (Num 0))
                          (Num 1000))
   = [0xff, 0xf8, 0, 0, 0, 0, 0, 0]"
  unfolding quotient_overflows
  by (simp add: Num_zero Num_1000 float64ToArray_invalid [unfolded invalid_def] invalid_def)

text \<open>
  The frame of the examples below: a data URL whose payload, with the identity for
  \<open>atob\<close>, is the ten bytes \<open>VP8 abcdef\<close>: the signature at offset 0, four size bytes
  and the two bytes \<open>65 66\<close>. The declared size exceeds the buffer, \<open>subarray\<close> clips,
  and the extractor returns \<open>65 66\<close>.
\<close>

lemma frame_example: "frame_callback Inr ''data:,VP8 abcdef'' = Inr [0x65, 0x66]"
proof -
  have d: "dataURLToUint8Array Inr ''data:,VP8 abcdef''
      = Inr [0x56, 0x50, 0x38, 0x20, 0x61, 0x62, 0x63, 0x64, 0x65, 0x66]"
    by (simp add: dataURLToUint8Array_def)
  have "extract_scan [0x56, 0x50, 0x38, 0x20, 0x61, 0x62, 0x63, 0x64, 0x65, 0x66] 0
      = Inr (subarray [0x56, 0x50, 0x38, 0x20, 0x61, 0x62, 0x63, 0x64, 0x65, 0x66] (int 0 + 8)
             (int 0 + 8 + chunk_size [0x56, 0x50, 0x38, 0x20, 0x61, 0x62, 0x63, 0x64, 0x65, 0x66] 0))"
    by (rule scan_first) (simp_all add: signature_at_def)
  also have "\<dots> = Inr [0x65, 0x66]"
    by (simp add: chunk_size_def toInt32_def subarray_def)
  finally show ?thesis by (simp add: frame_callback_def d extractVP8Bitstream_def)
qed

lemma three_frames:
  "map_frames Inr [''data:,VP8 abcdef'', ''data:,VP8 abcdef'', ''data:,VP8 abcdef'']
   = Inr [ [0x65, 0x66], [0x65, 0x66], [0x65, 0x66] ]"
  by (simp add: frame_example)

lemma upt_3: "[0..<3] = [0, 1, 2]"
  by (simp add: upt_rec)

text \<open>
  Claim C10. The pixel width and pixel height elements (\<open>b0\<close> and \<open>ba\<close>, inside the
  video element \<open>e0\<close> of the track entry) hold exactly two bytes each, the dimension
  modulo \<open>65536\<close>, most significant byte first: a dimension below \<open>65536\<close> is stored as
  it is, a larger one is reduced, and the dimensions never decide whether the entry
  point fails.
\<close>

theorem track_entry_dimensions:
  "track_entry width height
   = encodeElement [0xae]
       (encodeElement [0xd7] [1] @ encodeElement [0x73, 0xc5] [1]
        @ encodeElement [0x9c] [0] @ encodeElement [0x83] [1]
        @ encodeElement [0x86] (text_encode ''V_VP8'')
        @ encodeElement [0xe0]
            (encodeElement [0xb0] (uintToArray width 2)
             @ encodeElement [0xba] (uintToArray height 2)))
   \<and> length (uintToArray width 2) = 2 \<and> length (uintToArray height 2) = 2
   \<and> be_value (uintToArray width 2) = width mod 65536
   \<and> be_value (uintToArray height 2) = height mod 65536
   \<and> (0 \<le> width \<and> width < 65536 \<longrightarrow> be_value (uintToArray width 2) = width)
   \<and> (0 \<le> height \<and> height < 65536 \<longrightarrow> be_value (uintToArray height 2) = height)
   \<and> (fromImageArray atob frames fps width height = Inl e
        \<longleftrightarrow> fromImageArray atob frames fps 0 0 = Inl e)"
  by (simp add: track_entry_eq be_value_uintToArray_2 fromImageArray_error_iff) (simp add: uintToArray_2)

theorem track_entry_dimensions_witness:
  "uintToArray 640 2 = [0x02, 0x80] \<and> be_value [0x02, 0x80] = 640
   \<and> uintToArray 65537 2 = [0x00, 0x01] \<and> be_value [0x00, 0x01] = 1"
proof -
  have a: "uintToArray 640 2 = [0x02, 0x80]" "uintToArray 65537 2 = [0x00, 0x01]"
    by (simp_all add: uintToArray_2 toInt32_def)
  show ?thesis
    using track_entry_dimensions [of 640 65537 "\<lambda>s. Inr s" "[]" "Num 10" "Error []"]
    by (simp add: a)
qed




text \<open>
  Claim C9, as amended. For every frame sequence that is extracted without error and
  every fps, each SimpleBlock is an element \<open>a3\<close> whose payload is the track number
  byte \<open>81\<close> (track 1), two timecode bytes, the flag byte \<open>80\<close> and the frame; the
  timecode bytes are those of the running timecode of the loop of \<open>createWebM\<close>, which
  starts at 0, so that the first block stores \<open>00 00\<close>. When moreover the double
  \<open>1000 / fps\<close> is finite and not negative and the last timecode
  \<open>(N - 1) * frameDurationMs\<close> is at most 32767, the \<open>k\<close>-th block stores
  \<open>k * frameDurationMs\<close>, a reader of the signed 16-bit field gets that value back, and
  the values read are non-decreasing in frame order.
\<close>

theorem simple_block_invariants:
  assumes "map_frames atob frames = Inr vp8Frames"
  shows "fromImageArray atob frames fps width height
   = Inr \<lparr>blob_bytes =
       ebml_header
       @ encodeElement [0x18, 0x53, 0x80, 0x67]
           (segment_info (js_mul (math_round (js_div (Num 1000) fps))
                                 (Num (of_nat (length vp8Frames))))
            @ encodeElement [0x16, 0x54, 0xae, 0x6b] (track_entry width height)
            @ encodeElement [0x1f, 0x43, 0xb6, 0x75]
                (encodeElement [0xe7] [0, 0]
                 @ concat (map (\<lambda>k. encodeElement [0xa3]
                                      ([0x81]
                                       @ timecode_bytes
                                           (running_timecode (math_round (js_div (Num 1000) fps)) k)
                                       @ [0x80] @ vp8Frames ! k))
                               [0..<length vp8Frames]))),
       blob_type = ''video/webm''\<rparr>
   \<and> timecode_bytes (running_timecode (math_round (js_div (Num 1000) fps)) 0) = [0, 0]
   \<and> (\<forall>q. js_div (Num 1000) fps = Fin False q \<and> 0 \<le> q
            \<and> (int (length vp8Frames) - 1) * \<lfloor>q + 1 / 2\<rfloor> \<le> 32767 \<longrightarrow>
          (\<forall>k < length vp8Frames.
             timecode_bytes (running_timecode (math_round (js_div (Num 1000) fps)) k)
               = be16 (int k * \<lfloor>q + 1 / 2\<rfloor>)
             \<and> int16_be (be16 (int k * \<lfloor>q + 1 / 2\<rfloor>)) = int k * \<lfloor>q + 1 / 2\<rfloor>)
          \<and> (\<forall>j k. j \<le> k \<and> k < length vp8Frames \<longrightarrow>
                 int16_be (be16 (int j * \<lfloor>q + 1 / 2\<rfloor>))
                 \<le> int16_be (be16 (int k * \<lfloor>q + 1 / 2\<rfloor>))))"
proof (intro conjI allI impI)
  show "fromImageArray atob frames fps width height
   = Inr \<lparr>blob_bytes =
       ebml_header
       @ encodeElement [0x18, 0x53, 0x80, 0x67]
           (segment_info (js_mul (math_round (js_div (Num 1000) fps))
                                 (Num (of_nat (length vp8Frames))))
            @ encodeElement [0x16, 0x54, 0xae, 0x6b] (track_entry width height)
            @ encodeElement [0x1f, 0x43, 0xb6, 0x75]
                (encodeElement [0xe7] [0, 0]
                 @ concat (map (\<lambda>k. encodeElement [0xa3]
                                      ([0x81]
                                       @ timecode_bytes
                                           (running_timecode (math_round (js_div (Num 1000) fps)) k)
                                       @ [0x80] @ vp8Frames ! k))
                               [0..<length vp8Frames]))),
       blob_type = ''video/webm''\<rparr>"
    by (rule fromImageArray_layout [OF assms])
next
  show "timecode_bytes (running_timecode (math_round (js_div (Num 1000) fps)) 0) = [0, 0]"
    by (rule timecode_bytes_zero)
next
  fix q k
  assume h: "js_div (Num 1000) fps = Fin False q \<and> 0 \<le> q
      \<and> (int (length vp8Frames) - 1) * \<lfloor>q + 1 / 2\<rfloor> \<le> 32767"
    and k: "k < length vp8Frames"
  have d: "0 \<le> \<lfloor>q + 1 / 2\<rfloor>" using h by simp
  have "int k * \<lfloor>q + 1 / 2\<rfloor> \<le> (int (length vp8Frames) - 1) * \<lfloor>q + 1 / 2\<rfloor>"
    using k d by (intro mult_right_mono) auto
  then have b: "int k * \<lfloor>q + 1 / 2\<rfloor> \<le> 32767" using h by simp
  then have "int k * \<lfloor>q + 1 / 2\<rfloor> < 2 ^ 53" by simp
  then show "timecode_bytes (running_timecode (math_round (js_div (Num 1000) fps)) k)
      = be16 (int k * \<lfloor>q + 1 / 2\<rfloor>)"
    using h by (intro timecode_bytes_running) auto
  show "int16_be (be16 (int k * \<lfloor>q + 1 / 2\<rfloor>)) = int k * \<lfloor>q + 1 / 2\<rfloor>"
    using d b by (intro int16_be_be16) auto
next
  fix q j k
  assume h: "js_div (Num 1000) fps = Fin False q \<and> 0 \<le> q
      \<and> (int (length vp8Frames) - 1) * \<lfloor>q + 1 / 2\<rfloor> \<le> 32767"
    and jk: "j \<le> k \<and> k < length vp8Frames"
  have d: "0 \<le> \<lfloor>q + 1 / 2\<rfloor>" using h by simp
  have "int k * \<lfloor>q + 1 / 2\<rfloor> \<le> (int (length vp8Frames) - 1) * \<lfloor>q + 1 / 2\<rfloor>"
    using jk d by (intro mult_right_mono) auto
  then have b: "int k * \<lfloor>q + 1 / 2\<rfloor> \<le> 32767" using h by simp
  have le: "int j * \<lfloor>q + 1 / 2\<rfloor> \<le> int k * \<lfloor>q + 1 / 2\<rfloor>"
    using jk d by (intro mult_right_mono) auto
  have "int16_be (be16 (int j * \<lfloor>q + 1 / 2\<rfloor>)) = int j * \<lfloor>q + 1 / 2\<rfloor>"
    using d le b by (intro int16_be_be16) auto
  moreover have "int16_be (be16 (int k * \<lfloor>q + 1 / 2\<rfloor>)) = int k * \<lfloor>q + 1 / 2\<rfloor>"
    using d b by (intro int16_be_be16) auto
  ultimately show "int16_be (be16 (int j * \<lfloor>q + 1 / 2\<rfloor>))
      \<le> int16_be (be16 (int k * \<lfloor>q + 1 / 2\<rfloor>))"
    using le by simp
qed

theorem simple_block_invariants_witness:
  "timecode_bytes (running_timecode (math_round (js_div (Num 1000) (Num 10))) 2) = [0, 200]
   \<and> int16_be [0, 100] \<le> int16_be [0, 200]"
proof -
  note t = simple_block_invariants [OF three_frames, of "Num 10" 2 2,
      THEN conjunct2, THEN conjunct2, rule_format, of 100]
  have h: "js_div (Num 1000) (Num 10) = Fin False 100 \<and> (0::rat) \<le> 100
      \<and> (int (length [ [0x65, 0x66], [0x65, 0x66], [0x65, 0x66 :: byte] ]) - 1)
          * \<lfloor>100 + 1 / 2 :: rat\<rfloor> \<le> 32767"
    by (simp add: quotient_10 floor_rat_numeral)
  have "timecode_bytes (running_timecode (math_round (js_div (Num 1000) (Num 10))) 2) = [0, 200]"
    using t [OF h, THEN conjunct1, rule_format, of 2]
    by (simp add: floor_rat_numeral be16_examples)
  moreover have "int16_be [0, 100] \<le> int16_be [0, 200]"
    using t [OF h, THEN conjunct2, rule_format, of 1 2]
    by (simp add: floor_rat_numeral be16_examples)
  ultimately show ?thesis by simp
qed

text \<open>
  Claim C9 as stated, for every frame sequence and fps, fails when the last timecode
  exceeds 32767: three frames at \<open>fps = 1 / 32\<close> have the frame duration 32000, the
  blocks store \<open>00 00\<close>, \<open>7d 00\<close> and \<open>fa 00\<close>, and a reader of the signed 16-bit field
  gets 0, 32000 and -1536.
\<close>

theorem simple_block_invariants_counterexample:
  "fromImageArray Inr [''data:,VP8 abcdef'', ''data:,VP8 abcdef'', ''data:,VP8 abcdef'']
     (Num (1 / 32)) 2 2
   = Inr \<lparr>blob_bytes =
       ebml_header
       @ encodeElement [0x18, 0x53, 0x80, 0x67]
           (segment_info (js_mul (Num 32000) (Num 3))
            @ encodeElement [0x16, 0x54, 0xae, 0x6b] (track_entry 2 2)
            @ encodeElement [0x1f, 0x43, 0xb6, 0x75]
                (encodeElement [0xe7] [0, 0]
                 @ encodeElement [0xa3] [0x81, 0x00, 0x00, 0x80, 0x65, 0x66]
                 @ encodeElement [0xa3] [0x81, 0x7d, 0x00, 0x80, 0x65, 0x66]
                 @ encodeElement [0xa3] [0x81, 0xfa, 0x00, 0x80, 0x65, 0x66])),
       blob_type = ''video/webm''\<rparr>
   \<and> int16_be [0x7d, 0x00] = 32000
   \<and> int16_be [0xfa, 0x00] = - 1536"
proof -
  have "math_round (js_div (Num 1000) (Num (1 / 32))) = Num (of_int 32000)"
    using frame_duration_32000 by simp
  then have "fromImageArray Inr [''data:,VP8 abcdef'', ''data:,VP8 abcdef'', ''data:,VP8 abcdef'']
     (Num (1 / 32)) 2 2
   = Inr \<lparr>blob_bytes =
       ebml_header
       @ encodeElement [0x18, 0x53, 0x80, 0x67]
           (segment_info (js_mul (Num 32000) (Num 3))
            @ encodeElement [0x16, 0x54, 0xae, 0x6b] (track_entry 2 2)
            @ encodeElement [0x1f, 0x43, 0xb6, 0x75]
                (encodeElement [0xe7] [0, 0]
                 @ encodeElement [0xa3] [0x81, 0x00, 0x00, 0x80, 0x65, 0x66]
                 @ encodeElement [0xa3] [0x81, 0x7d, 0x00, 0x80, 0x65, 0x66]
                 @ encodeElement [0xa3] [0x81, 0xfa, 0x00, 0x80, 0x65, 0x66])),
       blob_type = ''video/webm''\<rparr>"
    using fromImageArray_blocks [OF three_frames, of "Num (1 / 32)" 32000 2 2]
    by (simp add: upt_3 be16_examples)
  moreover have "int16_be [0x7d, 0x00] = 32000" "int16_be [0xfa, 0x00] = - 1536"
    by (simp_all add: int16_be_def be_value_def)
  ultimately show ?thesis by simp
qed

text \<open>
  Claim C8, as amended. For the empty frame list and every fps for which the double
  \<open>1000 / fps\<close> is finite (every fps but zero, a NaN, and the values so close to zero
  that the quotient overflows), the entry point raises no error and returns the EBML
  header followed by a Segment that holds SegmentInfo, Tracks and a Cluster whose
  payload is the zero cluster timecode element only, with no SimpleBlock. The stored
  duration is zero: eight zero bytes, or \<open>80\<close> and seven zero bytes (the negative zero)
  when the quotient is negative.
\<close>

theorem empty_frame_list:
  assumes "js_div (Num 1000) fps = Fin s q"
  shows "fromImageArray atob [] fps width height
   = Inr \<lparr>blob_bytes =
       ebml_header
       @ encodeElement [0x18, 0x53, 0x80, 0x67]
           (encodeElement [0x15, 0x49, 0xa9, 0x66]
              (encodeElement [0x2a, 0xd7, 0xb1] [0x00, 0x0f, 0x42, 0x40]
               @ encodeElement [0x44, 0x89] [if s then 0x80 else 0x00, 0, 0, 0, 0, 0, 0, 0]
               @ encodeElement [0x4d, 0x80] (text_encode ''AnimArrange'')
               @ encodeElement [0x57, 0x41] (text_encode ''AnimArrange''))
            @ encodeElement [0x16, 0x54, 0xae, 0x6b] (track_entry width height)
            @ [0x1f, 0x43, 0xb6, 0x75, 0x84, 0xe7, 0x82, 0, 0]),
       blob_type = ''video/webm''\<rparr>"
proof -
  have m: "map_frames atob [] = Inr []" by simp
  show ?thesis
    unfolding fromImageArray_layout [OF m] assms
    by (simp add: segment_info_eq zero_duration float64ToArray_zero empty_cluster
        del: math_round.simps js_mul.simps js_div.simps)
qed

theorem empty_frame_list_witness:
  "fromImageArray (\<lambda>s. Inr s) [] (Num 10) 640 480
   = Inr \<lparr>blob_bytes =
       ebml_header
       @ encodeElement [0x18, 0x53, 0x80, 0x67]
           (encodeElement [0x15, 0x49, 0xa9, 0x66]
              (encodeElement [0x2a, 0xd7, 0xb1] [0x00, 0x0f, 0x42, 0x40]
               @ encodeElement [0x44, 0x89] [0, 0, 0, 0, 0, 0, 0, 0]
               @ encodeElement [0x4d, 0x80] (text_encode ''AnimArrange'')
               @ encodeElement [0x57, 0x41] (text_encode ''AnimArrange''))
            @ encodeElement [0x16, 0x54, 0xae, 0x6b] (track_entry 640 480)
            @ [0x1f, 0x43, 0xb6, 0x75, 0x84, 0xe7, 0x82, 0, 0]),
       blob_type = ''video/webm''\<rparr>"
  using empty_frame_list [OF quotient_10, of "\<lambda>s. Inr s" 640 480] by simp

text \<open>
  Claim C8 as stated, for any fps, fails at \<open>fps = 0\<close>: the document has the same
  elements, but \<open>Math.round(1000 / 0)\<close> is \<open>Infinity\<close>, \<open>Infinity * 0\<close> is a NaN, and the
  duration element holds \<open>ff f8 00 00 00 00 00 00\<close>, not zero.
\<close>

theorem empty_frame_list_counterexample:
  "fromImageArray (\<lambda>s. Inr s) [] (Num 0) 640 480
   = Inr \<lparr>blob_bytes =
       ebml_header
       @ encodeElement [0x18, 0x53, 0x80, 0x67]
           (encodeElement [0x15, 0x49, 0xa9, 0x66]
              (encodeElement [0x2a, 0xd7, 0xb1] [0x00, 0x0f, 0x42, 0x40]
               @ encodeElement [0x44, 0x89] [0xff, 0xf8, 0, 0, 0, 0, 0, 0]
               @ encodeElement [0x4d, 0x80] (text_encode ''AnimArrange'')
               @ encodeElement [0x57, 0x41] (text_encode ''AnimArrange''))
            @ encodeElement [0x16, 0x54, 0xae, 0x6b] (track_entry 640 480)
            @ [0x1f, 0x43, 0xb6, 0x75, 0x84, 0xe7, 0x82, 0, 0]),
       blob_type = ''video/webm''\<rparr>"
proof -
  have m: "map_frames (\<lambda>s. Inr s) [] = Inr []" by simp
  show ?thesis
    unfolding fromImageArray_layout [OF m]
    by (simp add: segment_info_eq invalid_duration float64ToArray_invalid empty_cluster
        del: math_round.simps js_mul.simps js_div.simps)
qed

section \<open>The entry point\<close>

lemma extract_error_unique:
  assumes "extractVP8Bitstream webp = Inl e"
  shows "e = Error ''VP8 bitstream not found in WebP image.''"
proof (cases "\<exists>i. int i \<le> int (length webp) - 10 \<and> signature_at webp i")
  case True
  then obtain vp8 where "extract_scan webp 0 = Inr vp8" using scan_found by blast
  then show ?thesis using assms by (simp add: extractVP8Bitstream_def)
next
  case False
  then have "extract_scan webp 0 = Inl (Error ''VP8 bitstream not found in WebP image.'')"
    by (intro scan_none) blast
  then show ?thesis using assms by (simp add: extractVP8Bitstream_def)
qed

lemma map_frames_error:
  "frame \<in> set frames \<Longrightarrow> frame_callback atob frame = Inl e \<Longrightarrow>
   \<exists>e'. map_frames atob frames = Inl e'"
  by (induction frames) (auto split: sum.splits)

lemma map_frames_error_origin:
  "map_frames atob frames = Inl e \<Longrightarrow> \<exists>frame \<in> set frames. frame_callback atob frame = Inl e"
  by (induction frames) (auto split: sum.splits)

lemma map_frames_first_error:
  "i < length frames \<Longrightarrow> frame_callback atob (frames ! i) = Inl e \<Longrightarrow>
   (\<And>j. j < i \<Longrightarrow> \<exists>vp8. frame_callback atob (frames ! j) = Inr vp8) \<Longrightarrow>
   map_frames atob frames = Inl e"
proof (induction frames arbitrary: i)
  case Nil
  then show ?case by simp
next
  case (Cons frame frames)
  show ?case
  proof (cases i)
    case 0
    then show ?thesis using Cons.prems(2) by simp
  next
    case (Suc k)
    obtain vp8 where v: "frame_callback atob frame = Inr vp8"
      using Cons.prems(3) [of 0] Suc by auto
    have "map_frames atob frames = Inl e"
    proof (rule Cons.IH [of k])
      show "k < length frames" using Cons.prems(1) Suc by simp
      show "frame_callback atob (frames ! k) = Inl e" using Cons.prems(2) Suc by simp
      show "\<exists>vp8. frame_callback atob (frames ! j) = Inr vp8" if "j < k" for j
        using Cons.prems(3) [of "Suc j"] that Suc by simp
    qed
    then show ?thesis using v by simp
  qed
qed

text \<open>
  Claim C6. If the extraction fails for some frame of the sequence, wherever it stands
  and whatever the other frames hold, the entry point returns no document but an
  error; and when the base64 text of every frame decodes, that error is the
  extractor's. (The error of the first failing frame is the one raised:
  \<open>map_frames_first_error\<close>.)
\<close>

theorem extraction_failure_aborts:
  assumes "frame \<in> set frames"
    and "dataURLToUint8Array atob frame = Inr webp"
    and "extractVP8Bitstream webp = Inl e"
  shows "(\<exists>e'. fromImageArray atob frames fps width height = Inl e')
       \<and> ((\<forall>f \<in> set frames. \<exists>b. dataURLToUint8Array atob f = Inr b)
            \<longrightarrow> fromImageArray atob frames fps width height = Inl e)"
proof -
  have f: "frame_callback atob frame = Inl e"
    using assms(2,3) by (simp add: frame_callback_def)
  then obtain e' where e': "map_frames atob frames = Inl e'"
    using map_frames_error [OF assms(1)] by blast
  have "e' = e" if d: "\<forall>f \<in> set frames. \<exists>b. dataURLToUint8Array atob f = Inr b"
  proof -
    obtain g where g: "g \<in> set frames" "frame_callback atob g = Inl e'"
      using map_frames_error_origin [OF e'] by blast
    obtain b where "dataURLToUint8Array atob g = Inr b" using d g(1) by blast
    then have "extractVP8Bitstream b = Inl e'" using g(2) by (simp add: frame_callback_def)
    then show ?thesis using extract_error_unique assms(3) by blast
  qed
  then show ?thesis using e' by (auto simp: fromImageArray_error_iff)
qed

theorem extraction_failure_aborts_witness:
  "fromImageArray (\<lambda>s. Inr s) [''data:,VP8 abcdef'', ''data:,abc''] (Num 10) 2 2
   = Inl (Error ''VP8 bitstream not found in WebP image.'')"
proof -
  have w: "dataURLToUint8Array (\<lambda>s. Inr s) ''data:,abc'' = Inr [0x61, 0x62, 0x63]"
    by (simp add: dataURLToUint8Array_def)
  have x: "extractVP8Bitstream [0x61, 0x62, 0x63]
           = Inl (Error ''VP8 bitstream not found in WebP image.'')"
    unfolding extractVP8Bitstream_def by (rule scan_none) simp
  have d: "\<forall>f \<in> set [''data:,VP8 abcdef'', ''data:,abc''].
             \<exists>b. dataURLToUint8Array (\<lambda>s. Inr s) f = Inr b"
    by (simp add: dataURLToUint8Array_def)
  show ?thesis
    using extraction_failure_aborts [OF _ w x, of "[''data:,VP8 abcdef'', ''data:,abc'']" "Num 10" 2 2] d
    by simp
qed

end
